theory Spec2Isabelle
  imports Main "HOL-Library.AList"
begin

section \<open>The cache engine of alisa.cache (src/index.js), embedded in HOL\<close>

text \<open>
  The class \<^verbatim>\<open>AlisaCache\<close> keeps its data in JavaScript \<^verbatim>\<open>Map\<close> and \<^verbatim>\<open>Set\<close>
  objects. Both iterate in insertion order, and the order is visible (eviction sorts the
  entries of the store with a stable sort, a snapshot lists them in order), so a
  \<^verbatim>\<open>Map\<close> is an association list and a \<^verbatim>\<open>Set\<close> is a list without repetition:
  \<^item> \<^verbatim>\<open>m.get(k)\<close> is \<open>map_of m k\<close> (\<open>None\<close> for \<^verbatim>\<open>undefined\<close>);
  \<^item> \<^verbatim>\<open>m.set(k, v)\<close> replaces the value in place when the key is there and appends the
    pair otherwise;
  \<^item> \<^verbatim>\<open>m.delete(k)\<close> removes the pair of the key.
  Keys are of a type \<open>'k\<close> whose equality stands for the key equality of \<^verbatim>\<open>Map\<close>,
  values of a type \<open>'v\<close>. Tags are strings (\<^verbatim>\<open>set\<close> stores \<^verbatim>\<open>String(tag)\<close>),
  timestamps, deadlines, priorities and counters are integers. \<^verbatim>\<open>Date.now()\<close> is the
  argument \<open>now\<close> of an operation: one call of a method reads one clock value.
  The listeners of \<^verbatim>\<open>emit\<close> are outside the engine (their exceptions are caught), so
  \<^verbatim>\<open>emit\<close> leaves the state as it is; the namespace registry and the prune timer are
  not part of the state modelled here.
\<close>

type_synonym ('a, 'b) js_map = "('a \<times> 'b) list"

abbreviation map_has :: "('a, 'b) js_map \<Rightarrow> 'a \<Rightarrow> bool" where
  "map_has m k \<equiv> map_of m k \<noteq> None"

abbreviation map_set :: "('a, 'b) js_map \<Rightarrow> 'a \<Rightarrow> 'b \<Rightarrow> ('a, 'b) js_map" where
  "map_set m k v \<equiv> AList.update k v m"

abbreviation map_delete :: "('a, 'b) js_map \<Rightarrow> 'a \<Rightarrow> ('a, 'b) js_map" where
  "map_delete m k \<equiv> AList.delete k m"

definition set_add :: "'a list \<Rightarrow> 'a \<Rightarrow> 'a list" where
  "set_add s x = (if x \<in> set s then s else s @ [x])"

definition set_delete :: "'a list \<Rightarrow> 'a \<Rightarrow> 'a list" where
  "set_delete s x = removeAll x s"

text \<open>\<^verbatim>\<open>new Set(array)\<close>: the elements in the order of their first occurrence.\<close>

definition new_Set :: "'a list \<Rightarrow> 'a list" where
  "new_Set xs = fold (\<lambda>x s. set_add s x) xs []"

datatype strategy = LRU | FIFO | MFU | CUSTOM

datatype error = CacheError | TypeError

text \<open>
  The fields of an instance. \<^verbatim>\<open>customEvict\<close> receives the store and the recency map
  and may change both in place; it is a function from the two maps to the two maps.
\<close>

record ('k, 'v) cache =
  limit :: int
  ttl :: "int option"
  updateOnGet :: bool
  updateOnHas :: bool
  cloneOnGet :: bool
  overWrite :: bool
  strategy :: strategy
  customEvict :: "(('k, 'v) js_map \<times> ('k, int) js_map \<Rightarrow> ('k, 'v) js_map \<times> ('k, int) js_map) option"
  hits :: int
  misses :: int
  evictions :: int
  store :: "('k, 'v) js_map"
  meta :: "('k, int) js_map"
  ttlMap :: "('k, int) js_map"
  priorityMap :: "('k, int) js_map"
  tagMap :: "(string, 'k list) js_map"
  keyTags :: "('k, string list) js_map"

subsection \<open>The constructor\<close>

record ('k, 'v) options =
  opt_limit :: "int option"
  opt_ttl :: "int option"
  opt_updateOnGet :: "bool option"
  opt_updateOnHas :: "bool option"
  opt_cloneOnGet :: "bool option"
  opt_overWrite :: "bool option"
  opt_strategy :: "strategy option"
  opt_customEvict :: "(('k, 'v) js_map \<times> ('k, int) js_map \<Rightarrow> ('k, 'v) js_map \<times> ('k, int) js_map) option"

definition with_default :: "'a \<Rightarrow> 'a option \<Rightarrow> 'a" where
  "with_default d x = (case x of None \<Rightarrow> d | Some y \<Rightarrow> y)"

text \<open>
  An omitted option is \<open>None\<close>. The strategy is one of the four valid names by its
  type, so the check of line 42 always passes; \<^verbatim>\<open>limit\<close> is a number by its type.
\<close>

definition AlisaCache :: "('k, 'v) options \<Rightarrow> error + ('k, 'v) cache" where
  "AlisaCache opts =
    (let lim = with_default 100 (opt_limit opts);
         strat = with_default LRU (opt_strategy opts)
     in if lim \<le> 0 then Inl CacheError
        else if strat = CUSTOM \<and> opt_customEvict opts = None then Inl CacheError
        else Inr \<lparr> limit = lim, ttl = opt_ttl opts,
                   updateOnGet = with_default False (opt_updateOnGet opts),
                   updateOnHas = with_default False (opt_updateOnHas opts),
                   cloneOnGet = with_default False (opt_cloneOnGet opts),
                   overWrite = with_default True (opt_overWrite opts),
                   strategy = strat, customEvict = opt_customEvict opts,
                   hits = 0, misses = 0, evictions = 0,
                   store = [], meta = [], ttlMap = [], priorityMap = [],
                   tagMap = [], keyTags = [] \<rparr>)"

subsection \<open>delete\<close>

text \<open>
  One round of the loop of \<^verbatim>\<open>delete\<close> over the tags of the key:
  \<^verbatim>\<open>keys?.delete(key); if (keys?.size === 0) this.tagMap.delete(tag)\<close>.
\<close>

definition untag :: "'k \<Rightarrow> string \<Rightarrow> (string, 'k list) js_map \<Rightarrow> (string, 'k list) js_map" where
  "untag key tag tm =
    (case map_of tm tag of
       None \<Rightarrow> tm
     | Some keys \<Rightarrow>
         (let keys' = set_delete keys key
          in if keys' = [] then map_delete tm tag else map_set tm tag keys'))"

definition delete :: "('k, 'v) cache \<Rightarrow> 'k \<Rightarrow> bool \<times> ('k, 'v) cache" where
  "delete c key =
    (let existed = map_has (store c) key;
         c1 = c\<lparr> store := map_delete (store c) key,
                 meta := map_delete (meta c) key,
                 ttlMap := map_delete (ttlMap c) key,
                 priorityMap := map_delete (priorityMap c) key \<rparr>;
         c2 = (case map_of (keyTags c1) key of
                 None \<Rightarrow> c1
               | Some tags \<Rightarrow>
                   c1\<lparr> tagMap := fold (untag key) tags (tagMap c1),
                       keyTags := map_delete (keyTags c1) key \<rparr>)
     in (existed, c2))"

subsection \<open>evict\<close>

text \<open>\<^verbatim>\<open>this.priorityMap.get(k) || 0\<close> and \<^verbatim>\<open>this.meta.get(k) || 0\<close>.\<close>

definition prio :: "('k, 'v) cache \<Rightarrow> 'k \<Rightarrow> int" where
  "prio c k = (case map_of (priorityMap c) k of None \<Rightarrow> 0 | Some p \<Rightarrow> p)"

definition time_of :: "('k, 'v) cache \<Rightarrow> 'k \<Rightarrow> int" where
  "time_of c k = (case map_of (meta c) k of None \<Rightarrow> 0 | Some t \<Rightarrow> t)"

text \<open>The comparator given to \<^verbatim>\<open>entries.sort\<close>.\<close>

definition compare_entries :: "('k, 'v) cache \<Rightarrow> 'k \<times> 'v \<Rightarrow> 'k \<times> 'v \<Rightarrow> int" where
  "compare_entries c a b =
    (let aPrio = prio c (fst a); bPrio = prio c (fst b)
     in if aPrio \<noteq> bPrio then aPrio - bPrio
        else (let aTime = time_of c (fst a); bTime = time_of c (fst b)
              in case strategy c of
                   LRU \<Rightarrow> aTime - bTime
                 | MFU \<Rightarrow> bTime - aTime
                 | FIFO \<Rightarrow> aTime - bTime
                 | CUSTOM \<Rightarrow> 0))"

text \<open>
  \<^verbatim>\<open>Array.prototype.sort\<close> is stable: elements that compare equal keep their order.
  It is modelled by insertion sort, which puts an element before the first later element
  it does not compare greater than. \<^verbatim>\<open>evict\<close> reads \<^verbatim>\<open>entries[0]\<close> after the
  check that the array is not empty, so \<open>hd\<close> is applied to a non-empty list.
\<close>

fun insert_sorted :: "('a \<Rightarrow> 'a \<Rightarrow> int) \<Rightarrow> 'a \<Rightarrow> 'a list \<Rightarrow> 'a list" where
  "insert_sorted cmp x [] = [x]"
| "insert_sorted cmp x (y # ys) =
    (if cmp x y \<le> 0 then x # y # ys else y # insert_sorted cmp x ys)"

definition js_sort :: "('a \<Rightarrow> 'a \<Rightarrow> int) \<Rightarrow> 'a list \<Rightarrow> 'a list" where
  "js_sort cmp xs = foldr (insert_sorted cmp) xs []"

definition evict :: "('k, 'v) cache \<Rightarrow> ('k, 'v) cache" where
  "evict c =
    (case customEvict c of
       Some f \<Rightarrow> (case f (store c, meta c) of (s, m) \<Rightarrow> c\<lparr> store := s, meta := m \<rparr>)
     | None \<Rightarrow>
         (let entries = store c
          in if entries = [] then c
             else (let sorted = js_sort (compare_entries c) entries;
                       evictKey = fst (hd sorted);
                       c1 = snd (delete c evictKey)
                   in c1\<lparr> evictions := evictions c1 + 1 \<rparr>)))"

subsection \<open>set\<close>

datatype tags_arg = NoTags | Tags "string list" | NotAnArray

text \<open>
  The option \<^verbatim>\<open>priority\<close>: omitted (the destructuring default 0 takes its place), a
  number, or a value that is not a number (a string, \<^verbatim>\<open>null\<close>).
\<close>

datatype priority_arg = NoPriority | Priority int | NotANumber

text \<open>
  The body of \<^verbatim>\<open>set\<close> after the check of \<^verbatim>\<open>tags\<close>: \<open>ttl_arg\<close> is the option
  \<^verbatim>\<open>ttl\<close> (\<open>None\<close> when omitted), \<open>priority_arg\<close> the option \<^verbatim>\<open>priority\<close>, and
  \<open>tags\<close> has its default filled in. The priority is written under the guard
  \<^verbatim>\<open>typeof priority === "number"\<close>: an omitted priority is the number 0 and is
  written, a value that is not a number is not. \<^verbatim>\<open>ttl || this.ttl\<close> takes the
  cache-wide TTL when \<^verbatim>\<open>ttl\<close> is omitted or 0; the deadline is set when the result is
  a positive number and removed otherwise.
\<close>

definition set_body ::
  "('k, 'v) cache \<Rightarrow> 'k \<Rightarrow> 'v \<Rightarrow> int option \<Rightarrow> priority_arg \<Rightarrow> string list \<Rightarrow> int
    \<Rightarrow> ('k, 'v) cache" where
  "set_body c key val ttl_arg priority_arg tags now =
    (let c1 = (case priority_arg of
                 NoPriority \<Rightarrow> c\<lparr> priorityMap := map_set (priorityMap c) key 0 \<rparr>
               | Priority priority \<Rightarrow> c\<lparr> priorityMap := map_set (priorityMap c) key priority \<rparr>
               | NotANumber \<Rightarrow> c);
         defaultTTL = (case ttl_arg of
                         Some t \<Rightarrow> if t \<noteq> 0 then Some t else ttl c1
                       | None \<Rightarrow> ttl c1)
     in if \<not> overWrite c1 \<and> map_has (store c1) key then c1
        else
          (let c2 = (if limit c1 \<le> int (length (store c1)) \<and> \<not> map_has (store c1) key
                     then evict c1 else c1);
               c3 = c2\<lparr> store := map_set (store c2) key val,
                       meta := map_set (meta c2) key now \<rparr>;
               c4 = (case defaultTTL of
                       Some d \<Rightarrow>
                         if d > 0 then c3\<lparr> ttlMap := map_set (ttlMap c3) key (now + d) \<rparr>
                         else c3\<lparr> ttlMap := map_delete (ttlMap c3) key \<rparr>
                     | None \<Rightarrow> c3\<lparr> ttlMap := map_delete (ttlMap c3) key \<rparr>);
               tagSet = new_Set tags;
               c5 = c4\<lparr> keyTags := map_set (keyTags c4) key tagSet \<rparr>
           in c5\<lparr> tagMap :=
                    fold (\<lambda>tag tm. map_set tm tag
                            (set_add (case map_of tm tag of None \<Rightarrow> [] | Some ks \<Rightarrow> ks) key))
                      tagSet (tagMap c5) \<rparr>))"

text \<open>
  \<^verbatim>\<open>set(key, value, options)\<close>: a \<^verbatim>\<open>tags\<close> option that is not an array throws
  before anything is changed (\<open>Inl\<close> carries the error and the state at the throw).
\<close>

definition set_cache ::
  "('k, 'v) cache \<Rightarrow> 'k \<Rightarrow> 'v \<Rightarrow> int option \<Rightarrow> priority_arg \<Rightarrow> tags_arg \<Rightarrow> int
    \<Rightarrow> (error \<times> ('k, 'v) cache) + ('k, 'v) cache" where
  "set_cache c key val ttl_arg priority_arg tags_arg now =
    (case tags_arg of
       NotAnArray \<Rightarrow> Inl (CacheError, c)
     | NoTags \<Rightarrow> Inr (set_body c key val ttl_arg priority_arg [] now)
     | Tags ts \<Rightarrow> Inr (set_body c key val ttl_arg priority_arg ts now))"

subsection \<open>get, has, ttlExpire, expire\<close>

text \<open>\<^verbatim>\<open>ttl && Date.now() > ttl\<close>: a missing deadline and the number 0 are falsy.\<close>

definition expired :: "int option \<Rightarrow> int \<Rightarrow> bool" where
  "expired deadline now = (case deadline of None \<Rightarrow> False | Some t \<Rightarrow> t \<noteq> 0 \<and> now > t)"

text \<open>
  \<^verbatim>\<open>get\<close> returns the value (\<open>None\<close> for \<^verbatim>\<open>undefined\<close>). With \<^verbatim>\<open>cloneOnGet\<close>
  the value returned is a deep copy, which this model does not tell from the value.
\<close>

definition get :: "('k, 'v) cache \<Rightarrow> 'k \<Rightarrow> int \<Rightarrow> 'v option \<times> ('k, 'v) cache" where
  "get c key now =
    (if \<not> map_has (store c) key then (None, c\<lparr> misses := misses c + 1 \<rparr>)
     else if expired (map_of (ttlMap c) key) now
     then (let c1 = snd (delete c key) in (None, c1\<lparr> misses := misses c1 + 1 \<rparr>))
     else (let c1 = (if updateOnGet c then c\<lparr> meta := map_set (meta c) key now \<rparr> else c);
               c2 = c1\<lparr> hits := hits c1 + 1 \<rparr>
           in (map_of (store c2) key, c2)))"

definition has :: "('k, 'v) cache \<Rightarrow> 'k \<Rightarrow> int \<Rightarrow> bool \<times> ('k, 'v) cache" where
  "has c key now =
    (if \<not> map_has (store c) key \<or> expired (map_of (ttlMap c) key) now
     then (False, snd (delete c key))
     else (True, if updateOnHas c then c\<lparr> meta := map_set (meta c) key now \<rparr> else c))"

definition ttlExpire :: "('k, 'v) cache \<Rightarrow> 'k \<Rightarrow> int \<Rightarrow> int" where
  "ttlExpire c key now =
    (case map_of (ttlMap c) key of
       None \<Rightarrow> - 1
     | Some expireAt \<Rightarrow>
         if \<not> map_has (store c) key \<or> expireAt = 0 then - 1
         else if expireAt > now then expireAt - now else - 1)"

definition expire :: "('k, 'v) cache \<Rightarrow> 'k \<Rightarrow> int \<Rightarrow> bool \<times> ('k, 'v) cache" where
  "expire c key now =
    (if \<not> map_has (ttlMap c) key then (False, c)
     else (True, c\<lparr> ttlMap := map_set (ttlMap c) key (now - 1) \<rparr>))"

subsection \<open>deleteByTag, rename, flush\<close>

text \<open>
  The loop of \<^verbatim>\<open>deleteByTag\<close> runs over the live key set of the tag while
  \<^verbatim>\<open>delete\<close> removes keys from it. A round removes from the set at most the key it
  is visiting, so the loop visits the keys the set had at the start, in order.
\<close>

definition deleteByTag :: "('k, 'v) cache \<Rightarrow> string \<Rightarrow> int \<times> ('k, 'v) cache" where
  "deleteByTag c tag =
    (case map_of (tagMap c) tag of
       None \<Rightarrow> (0, c)
     | Some keys \<Rightarrow>
         (case fold (\<lambda>key (n, s). case delete s key of
                                      (existed, s') \<Rightarrow> (if existed then n + 1 else n, s'))
                 keys (0, c) of
            (deleted, c1) \<Rightarrow> (deleted, c1\<lparr> tagMap := map_delete (tagMap c1) tag \<rparr>)))"

text \<open>
  One round of the loop of \<^verbatim>\<open>rename\<close> over the tags of the old key:
  \<^verbatim>\<open>this.tagMap.get(tag)?.add(newKey); this.tagMap.get(tag)?.delete(oldKey)\<close>.
\<close>

definition retag :: "'k \<Rightarrow> 'k \<Rightarrow> string \<Rightarrow> (string, 'k list) js_map \<Rightarrow> (string, 'k list) js_map" where
  "retag oldKey newKey tag tm =
    (case map_of tm tag of
       None \<Rightarrow> tm
     | Some ks \<Rightarrow> map_set tm tag (set_delete (set_add ks newKey) oldKey))"

text \<open>
  \<^verbatim>\<open>rename\<close> calls \<^verbatim>\<open>this.set(newKey, value)\<close> with no options: \<^verbatim>\<open>ttl\<close> is
  \<^verbatim>\<open>undefined\<close>, \<^verbatim>\<open>priority\<close> is 0 and \<^verbatim>\<open>tags\<close> is the empty array, which
  passes the check of \<^verbatim>\<open>set\<close>. The guards \<^verbatim>\<open>if (meta)\<close> and \<^verbatim>\<open>if (ttl)\<close> are
  false for a missing entry and for the number 0; \<^verbatim>\<open>if (tags)\<close> is false for a
  missing entry only.
\<close>

definition rename :: "('k, 'v) cache \<Rightarrow> 'k \<Rightarrow> 'k \<Rightarrow> int \<Rightarrow> bool \<times> ('k, 'v) cache" where
  "rename c oldKey newKey now =
    (case map_of (store c) oldKey of
       None \<Rightarrow> (False, c)
     | Some val \<Rightarrow>
         if map_has (store c) newKey then (False, c)
         else
           (let meta_old = map_of (meta c) oldKey;
                ttl_old = map_of (ttlMap c) oldKey;
                tags_old = map_of (keyTags c) oldKey;
                c1 = set_body c newKey val None NoPriority [] now;
                c2 = (case meta_old of
                        None \<Rightarrow> c1
                      | Some m \<Rightarrow> if m \<noteq> 0 then c1\<lparr> meta := map_set (meta c1) newKey m \<rparr> else c1);
                c3 = (case ttl_old of
                        None \<Rightarrow> c2
                      | Some t \<Rightarrow> if t \<noteq> 0 then c2\<lparr> ttlMap := map_set (ttlMap c2) newKey t \<rparr> else c2);
                c4 = (case tags_old of
                        None \<Rightarrow> c3
                      | Some tags \<Rightarrow>
                          c3\<lparr> keyTags := map_set (keyTags c3) newKey (new_Set tags),
                              tagMap := fold (retag oldKey newKey) tags (tagMap c3) \<rparr>)
            in (True, snd (delete c4 oldKey))))"

definition flush :: "('k, 'v) cache \<Rightarrow> ('k, 'v) cache" where
  "flush c = c\<lparr> store := [], meta := [], ttlMap := [], tagMap := [], keyTags := [],
               priorityMap := [] \<rparr>"

subsection \<open>getByTag, prune, resetStats\<close>

text \<open>
  \<^verbatim>\<open>getByTag\<close> copies the key set of the tag, reads every key with \<^verbatim>\<open>get\<close> and
  drops the reads that returned \<^verbatim>\<open>undefined\<close>. \<^verbatim>\<open>prune\<close> runs over the live
  deadline map while \<^verbatim>\<open>delete\<close> removes the entry it is visiting, so it visits the
  entries the map had at the start.
\<close>

definition prune :: "('k, 'v) cache \<Rightarrow> int \<Rightarrow> int \<times> ('k, 'v) cache" where
  "prune c now =
    fold (\<lambda>(key, expireAt) (removed, s).
            if now > expireAt
            then (case delete s key of (existed, s') \<Rightarrow> (if existed then removed + 1 else removed, s'))
            else (removed, s))
      (ttlMap c) (0, c)"

definition getByTag :: "('k, 'v) cache \<Rightarrow> string \<Rightarrow> int \<Rightarrow> 'v list \<times> ('k, 'v) cache" where
  "getByTag c tag now =
    (case map_of (tagMap c) tag of
       None \<Rightarrow> ([], c)
     | Some keys \<Rightarrow>
         fold (\<lambda>k (vs, s). case get s k now of
                              (None, s') \<Rightarrow> (vs, s')
                            | (Some v, s') \<Rightarrow> (vs @ [v], s'))
           keys ([], c))"

definition resetStats :: "('k, 'v) cache \<Rightarrow> ('k, 'v) cache" where
  "resetStats c = c\<lparr> hits := 0, misses := 0, evictions := 0 \<rparr>"

subsection \<open>snapshot, loadSnapshot, clone\<close>

text \<open>
  \<^verbatim>\<open>loadSnapshot\<close> takes any JavaScript value. The values told apart here are the ones
  its code tells apart: a value that is falsy or not of type object; and an object, each
  of whose five collections is falsy (\<open>Missing\<close>: \<^verbatim>\<open>snapshot.data || []\<close> reads it as
  empty), a truthy value that cannot be iterated (\<open>NotIterable\<close>: the \<^verbatim>\<open>for...of\<close>
  throws a TypeError), or an array. An element of an array is a pair \<^verbatim>\<open>[a, b]\<close>, or
  a value that the pattern \<^verbatim>\<open>[k, v]\<close> cannot destructure (a TypeError again). The
  field \<^verbatim>\<open>stats\<close> may be missing, and so may each of its three counters.
\<close>

datatype 'a js_entry = NotAPair | Entry 'a

datatype 'a js_collection = Missing | NotIterable | Array "'a js_entry list"

record js_stats =
  stats_hits :: "int option"
  stats_misses :: "int option"
  stats_evictions :: "int option"

record ('k, 'v) snapshot_object =
  snap_data :: "('k \<times> 'v) js_collection"
  snap_meta :: "('k \<times> int) js_collection"
  snap_ttlMap :: "('k \<times> int) js_collection"
  snap_tagMap :: "(string \<times> 'k list) js_collection"
  snap_keyTags :: "('k \<times> string list) js_collection"
  snap_stats :: "js_stats option"

datatype ('k, 'v) js_value = NotAnObject | Object "('k, 'v) snapshot_object"

definition snapshot :: "('k, 'v) cache \<Rightarrow> ('k, 'v) js_value" where
  "snapshot c =
    Object \<lparr> snap_data = Array (map Entry (store c)),
             snap_meta = Array (map Entry (meta c)),
             snap_ttlMap = Array (map Entry (ttlMap c)),
             snap_tagMap = Array (map Entry (tagMap c)),
             snap_keyTags = Array (map Entry (keyTags c)),
             snap_stats = Some \<lparr> stats_hits = Some (hits c), stats_misses = Some (misses c),
                                 stats_evictions = Some (evictions c) \<rparr> \<rparr>"

text \<open>
  \<^verbatim>\<open>for (const [a, b] of coll || []) body\<close>: the state after the loop, and whether the
  loop ran to its end (\<open>False\<close>: it threw a TypeError, at the state returned).
\<close>

fun for_of :: "('a \<Rightarrow> 's \<Rightarrow> 's) \<Rightarrow> 'a js_entry list \<Rightarrow> 's \<Rightarrow> bool \<times> 's" where
  "for_of body [] s = (True, s)"
| "for_of body (NotAPair # es) s = (False, s)"
| "for_of body (Entry a # es) s = for_of body es (body a s)"

definition iterate :: "'a js_collection \<Rightarrow> ('a \<Rightarrow> 's \<Rightarrow> 's) \<Rightarrow> 's \<Rightarrow> bool \<times> 's" where
  "iterate coll body s =
    (case coll of
       Missing \<Rightarrow> (True, s)
     | NotIterable \<Rightarrow> (False, s)
     | Array es \<Rightarrow> for_of body es s)"

text \<open>\<^verbatim>\<open>coll || []\<close>: a missing collection is the empty array.\<close>

definition or_empty :: "'a js_collection \<Rightarrow> 'a js_collection" where
  "or_empty coll = (case coll of Missing \<Rightarrow> Array [] | NotIterable \<Rightarrow> NotIterable | Array es \<Rightarrow> Array es)"

definition loadSnapshot ::
  "('k, 'v) cache \<Rightarrow> ('k, 'v) js_value \<Rightarrow> (error \<times> ('k, 'v) cache) + ('k, 'v) cache" where
  "loadSnapshot c snap =
    (case snap of
       NotAnObject \<Rightarrow> Inl (CacheError, c)
     | Object f \<Rightarrow>
        (let c0 = flush c
         in case iterate (snap_data f) (\<lambda>(k, v) m. map_set m k v) (store c0) of (ok1, m1) \<Rightarrow>
            (let c1 = c0\<lparr> store := m1 \<rparr>
             in if \<not> ok1 then Inl (TypeError, c1)
                else case iterate (snap_meta f) (\<lambda>(k, v) m. map_set m k v) (meta c1) of (ok2, m2) \<Rightarrow>
            (let c2 = c1\<lparr> meta := m2 \<rparr>
             in if \<not> ok2 then Inl (TypeError, c2)
                else case iterate (snap_ttlMap f) (\<lambda>(k, v) m. map_set m k v) (ttlMap c2) of (ok3, m3) \<Rightarrow>
            (let c3 = c2\<lparr> ttlMap := m3 \<rparr>
             in if \<not> ok3 then Inl (TypeError, c3)
                else case iterate (snap_tagMap f) (\<lambda>(tag, keys) m. map_set m tag (new_Set keys)) (tagMap c3) of (ok4, m4) \<Rightarrow>
            (let c4 = c3\<lparr> tagMap := m4 \<rparr>
             in if \<not> ok4 then Inl (TypeError, c4)
                else case iterate (snap_keyTags f) (\<lambda>(key, tags) m. map_set m key (new_Set tags)) (keyTags c4) of (ok5, m5) \<Rightarrow>
            (let c5 = c4\<lparr> keyTags := m5 \<rparr>
             in if \<not> ok5 then Inl (TypeError, c5)
                else (let st = with_default \<lparr> stats_hits = None, stats_misses = None,
                                              stats_evictions = None \<rparr> (snap_stats f)
                      in Inr (c5\<lparr> hits := with_default 0 (stats_hits st),
                                  misses := with_default 0 (stats_misses st),
                                  evictions := with_default 0 (stats_evictions st) \<rparr>)))))))))"

text \<open>
  \<^verbatim>\<open>_deepClone\<close> builds a new instance from the configuration of this one; the
  cache-wide \<^verbatim>\<open>ttl\<close> is not among the options it passes on.
\<close>

definition deepClone :: "('k, 'v) cache \<Rightarrow> error + ('k, 'v) cache" where
  "deepClone c =
    AlisaCache \<lparr> opt_limit = Some (limit c), opt_ttl = None,
                 opt_updateOnGet = Some (updateOnGet c), opt_updateOnHas = Some (updateOnHas c),
                 opt_cloneOnGet = Some (cloneOnGet c), opt_overWrite = Some (overWrite c),
                 opt_strategy = Some (strategy c), opt_customEvict = customEvict c \<rparr>"

text \<open>
  \<^verbatim>\<open>JSON.parse(JSON.stringify(snapshot))\<close> copies the arrays of the snapshot, with
  numbers and strings as they are; \<open>jk\<close> and \<open>jv\<close> are what the round trip through
  JSON makes of a key and of a value.
\<close>

definition JSON_copy :: "('k \<Rightarrow> 'k) \<Rightarrow> ('v \<Rightarrow> 'v) \<Rightarrow> ('k, 'v) js_value \<Rightarrow> ('k, 'v) js_value" where
  "JSON_copy jk jv snap =
    (case snap of
       NotAnObject \<Rightarrow> NotAnObject
     | Object f \<Rightarrow>
         Object \<lparr> snap_data = map_js_collection (\<lambda>(k, v). (jk k, jv v)) (snap_data f),
                  snap_meta = map_js_collection (\<lambda>(k, t). (jk k, t)) (snap_meta f),
                  snap_ttlMap = map_js_collection (\<lambda>(k, t). (jk k, t)) (snap_ttlMap f),
                  snap_tagMap = map_js_collection (\<lambda>(tag, ks). (tag, map jk ks)) (snap_tagMap f),
                  snap_keyTags = map_js_collection (\<lambda>(k, ts). (jk k, ts)) (snap_keyTags f),
                  snap_stats = snap_stats f \<rparr>)"

definition clone :: "('k \<Rightarrow> 'k) \<Rightarrow> ('v \<Rightarrow> 'v) \<Rightarrow> ('k, 'v) cache \<Rightarrow> error + ('k, 'v) cache" where
  "clone jk jv c =
    (let snap = snapshot c
     in case deepClone c of
          Inl e \<Rightarrow> Inl e
        | Inr fresh \<Rightarrow>
            (case loadSnapshot fresh (JSON_copy jk jv snap) of
               Inl (e, _) \<Rightarrow> Inl e
             | Inr c' \<Rightarrow> Inr c'))"

section \<open>Properties and example states\<close>

text \<open>The state an operation leaves behind, whether it returned or threw.\<close>

definition state_of :: "(error \<times> ('k, 'v) cache) + ('k, 'v) cache \<Rightarrow> ('k, 'v) cache" where
  "state_of r = (case r of Inl (e, c) \<Rightarrow> c | Inr c \<Rightarrow> c)"

text \<open>
  The tag index is consistent when every key listed under a tag has that tag in its own
  tag set, every tag of a key lists the key, and no tag is mapped to an empty key set.
\<close>

definition in_tagMap :: "('k, 'v) cache \<Rightarrow> string \<Rightarrow> 'k \<Rightarrow> bool" where
  "in_tagMap c t k = (case map_of (tagMap c) t of None \<Rightarrow> False | Some ks \<Rightarrow> k \<in> set ks)"

definition in_keyTags :: "('k, 'v) cache \<Rightarrow> 'k \<Rightarrow> string \<Rightarrow> bool" where
  "in_keyTags c k t = (case map_of (keyTags c) k of None \<Rightarrow> False | Some ts \<Rightarrow> t \<in> set ts)"

definition tag_index_consistent :: "('k, 'v) cache \<Rightarrow> bool" where
  "tag_index_consistent c =
    (list_all (\<lambda>(t, ks). ks \<noteq> [] \<and> list_all (\<lambda>k. in_keyTags c k t) ks) (tagMap c) \<and>
     list_all (\<lambda>(k, ts). list_all (\<lambda>t. in_tagMap c t k) ts) (keyTags c))"

text \<open>
  What a \<^verbatim>\<open>Map\<close> and a \<^verbatim>\<open>Set\<close> guarantee by themselves: no key occurs twice in a
  map, no element twice in a set.
\<close>

definition well_formed :: "('k, 'v) cache \<Rightarrow> bool" where
  "well_formed c =
    (distinct (map fst (store c)) \<and> distinct (map fst (meta c)) \<and>
     distinct (map fst (ttlMap c)) \<and> distinct (map fst (priorityMap c)) \<and>
     distinct (map fst (tagMap c)) \<and> distinct (map fst (keyTags c)) \<and>
     list_all (\<lambda>(t, ks). distinct ks) (tagMap c) \<and>
     list_all (\<lambda>(k, ts). distinct ts) (keyTags c))"

text \<open>A map from keys to sets: no key twice, and no element twice in a set.\<close>

definition tag_sets_ok :: "('a \<times> 'b list) list \<Rightarrow> bool" where
  "tag_sets_ok m = (distinct (map fst m) \<and> list_all (\<lambda>(k, s). distinct s) m)"

text \<open>A custom eviction function works on maps: what it leaves are maps again.\<close>

definition custom_ok :: "('k, 'v) cache \<Rightarrow> bool" where
  "custom_ok c =
    (case customEvict c of
       None \<Rightarrow> True
     | Some f \<Rightarrow> (\<forall>s m. distinct (map fst s) \<and> distinct (map fst m) \<longrightarrow>
                    distinct (map fst (fst (f (s, m)))) \<and> distinct (map fst (snd (f (s, m))))))"

text \<open>
  The states an instance can reach: the state the constructor builds, and the state
  after each operation that changes the instance, whether the operation returned or
  threw.
\<close>

inductive reachable :: "('k, 'v) cache \<Rightarrow> bool" where
  constructed: "AlisaCache opts = Inr c \<Longrightarrow> custom_ok c \<Longrightarrow> reachable c"
| after_set: "reachable c \<Longrightarrow> reachable (state_of (set_cache c key v ttl_arg p tags now))"
| after_get: "reachable c \<Longrightarrow> reachable (snd (get c key now))"
| after_getByTag: "reachable c \<Longrightarrow> reachable (snd (getByTag c tag now))"
| after_has: "reachable c \<Longrightarrow> reachable (snd (has c key now))"
| after_delete: "reachable c \<Longrightarrow> reachable (snd (delete c key))"
| after_deleteByTag: "reachable c \<Longrightarrow> reachable (snd (deleteByTag c tag))"
| after_rename: "reachable c \<Longrightarrow> reachable (snd (rename c oldKey newKey now))"
| after_flush: "reachable c \<Longrightarrow> reachable (flush c)"
| after_expire: "reachable c \<Longrightarrow> reachable (snd (expire c key now))"
| after_prune: "reachable c \<Longrightarrow> reachable (snd (prune c now))"
| after_resetStats: "reachable c \<Longrightarrow> reachable (resetStats c)"
| after_loadSnapshot: "reachable c \<Longrightarrow> reachable (state_of (loadSnapshot c snap))"

text \<open>What every reachable state satisfies.\<close>

definition cache_ok :: "('k, 'v) cache \<Rightarrow> bool" where
  "cache_ok c = (well_formed c \<and> custom_ok c)"

text \<open>The options \<^verbatim>\<open>{}\<close> and the instance \<^verbatim>\<open>new AlisaCache()\<close> builds from them.\<close>

definition no_options :: "(string, nat) options" where
  "no_options =
    \<lparr> opt_limit = None, opt_ttl = None, opt_updateOnGet = None, opt_updateOnHas = None,
      opt_cloneOnGet = None, opt_overWrite = None, opt_strategy = None,
      opt_customEvict = None \<rparr>"

definition empty_cache :: "(string, nat) cache" where
  "empty_cache =
    \<lparr> limit = 100, ttl = None, updateOnGet = False, updateOnHas = False, cloneOnGet = False,
      overWrite = True, strategy = LRU, customEvict = None, hits = 0, misses = 0,
      evictions = 0, store = [], meta = [], ttlMap = [], priorityMap = [], tagMap = [],
      keyTags = [] \<rparr>"

text \<open>
  A state with tags, a deadline, priorities and counters: two writes, a read that hits
  and a read that misses.
\<close>

definition sample :: "(string, nat) cache" where
  "sample =
    (let c1 = state_of (set_cache empty_cache ''x'' 1 (Some 50) (Priority 5) (Tags [''t'', ''u'']) 100);
         c2 = state_of (set_cache c1 ''y'' 2 None NoPriority (Tags [''t'']) 110);
         c3 = snd (get c2 ''x'' 120)
     in snd (get c3 ''z'' 130))"

text \<open>
  An instance with room for two entries, built with the given strategy and custom
  eviction function, and the writes that fill it: \<open>a\<close> with priority 2 at time 10, then
  \<open>b\<close> with priority 1 at time 20. The entry \<open>b\<close> is the one used most recently and the
  one of lowest priority.
\<close>

definition example_options ::
  "strategy option \<Rightarrow>
   ((string, nat) js_map \<times> (string, int) js_map \<Rightarrow> (string, nat) js_map \<times> (string, int) js_map) option
   \<Rightarrow> (string, nat) options" where
  "example_options s f = no_options\<lparr> opt_limit := Some 2, opt_strategy := s, opt_customEvict := f \<rparr>"

definition example_instance ::
  "strategy \<Rightarrow>
   ((string, nat) js_map \<times> (string, int) js_map \<Rightarrow> (string, nat) js_map \<times> (string, int) js_map) option
   \<Rightarrow> (string, nat) cache" where
  "example_instance s f = empty_cache\<lparr> limit := 2, strategy := s, customEvict := f \<rparr>"

definition two_entries :: "(string, nat) cache \<Rightarrow> (string, nat) cache" where
  "two_entries c =
    state_of (set_cache (state_of (set_cache c ''a'' 1 None (Priority 2) NoTags 10))
                ''b'' 2 None (Priority 1) NoTags 20)"

text \<open>The same two writes without priorities: both entries have priority 0.\<close>

definition two_equal_entries :: "(string, nat) cache \<Rightarrow> (string, nat) cache" where
  "two_equal_entries c =
    state_of (set_cache (state_of (set_cache c ''a'' 1 None NoPriority NoTags 10))
                ''b'' 2 None NoPriority NoTags 20)"

text \<open>
  A custom eviction function that removes the entry inserted first:
  \<^verbatim>\<open>(store, meta) => { const k = store.keys().next().value; store.delete(k); meta.delete(k) }\<close>.
\<close>

definition evict_first ::
  "(string, nat) js_map \<times> (string, int) js_map \<Rightarrow> (string, nat) js_map \<times> (string, int) js_map" where
  "evict_first sm =
    (case fst sm of
       [] \<Rightarrow> sm
     | (k, v) # rest \<Rightarrow> (map_delete (fst sm) k, map_delete (snd sm) k))"

text \<open>The object \<^verbatim>\<open>{}\<close> as a snapshot: every collection and the counters are missing.\<close>

definition empty_object :: "(string, nat) snapshot_object" where
  "empty_object =
    \<lparr> snap_data = Missing, snap_meta = Missing, snap_ttlMap = Missing,
      snap_tagMap = Missing, snap_keyTags = Missing, snap_stats = None \<rparr>"

section \<open>Theorems\<close>

subsection \<open>Maps, sets and the fields after delete\<close>

lemma AlisaCache_no_options: "AlisaCache no_options = Inr empty_cache"
  by (simp add: AlisaCache_def no_options_def empty_cache_def with_default_def)

lemma map_delete_absent: "map_of m k = None \<Longrightarrow> map_delete m k = m"
  by (simp add: map_of_eq_None_iff)

lemma map_set_fresh: "k \<notin> fst ` set m \<Longrightarrow> map_set m k v = m @ [(k, v)]"
  by (induction m) auto

lemma set_fold_set_add: "set (fold (\<lambda>x s. set_add s x) xs ys) = set xs \<union> set ys"
  by (induction xs arbitrary: ys) (auto simp add: set_add_def)

lemma set_new_Set: "set (new_Set xs) = set xs"
  by (simp add: new_Set_def set_fold_set_add)

lemma delete_fields:
  "store (snd (delete c key)) = map_delete (store c) key"
  "meta (snd (delete c key)) = map_delete (meta c) key"
  "ttlMap (snd (delete c key)) = map_delete (ttlMap c) key"
  "priorityMap (snd (delete c key)) = map_delete (priorityMap c) key"
  "keyTags (snd (delete c key)) = map_delete (keyTags c) key"
  "hits (snd (delete c key)) = hits c"
  "misses (snd (delete c key)) = misses c"
  "evictions (snd (delete c key)) = evictions c"
  by (simp_all add: delete_def Let_def map_delete_absent split: option.splits)

subsection \<open>ttlExpire\<close>

lemma ttlExpire_absent: "\<not> map_has (store c) key \<Longrightarrow> ttlExpire c key now = - 1"
  by (simp add: ttlExpire_def split: option.splits)

lemma ttlExpire_no_deadline: "map_of (ttlMap c) key = None \<Longrightarrow> ttlExpire c key now = - 1"
  by (simp add: ttlExpire_def)

lemma ttlExpire_before_deadline:
  assumes "map_has (store c) key" and "map_of (ttlMap c) key = Some d" and "d \<noteq> 0" and "now < d"
  shows "ttlExpire c key now = d - now" and "0 < ttlExpire c key now"
  using assms by (auto simp add: ttlExpire_def)

lemma ttlExpire_from_deadline:
  assumes "map_of (ttlMap c) key = Some d" and "d \<le> now"
  shows "ttlExpire c key now = - 1"
  using assms by (simp add: ttlExpire_def)

text \<open>
  C8. \<^verbatim>\<open>ttlExpire\<close> at the exact deadline \<open>d\<close> of a stored key: \<^verbatim>\<open>get\<close> still
  returns the value (the entry has not expired: \<^verbatim>\<open>Date.now() > ttl\<close> is false), while
  \<^verbatim>\<open>ttlExpire\<close> returns -1 and not the 0 ms that remain.
\<close>

theorem ttlExpire_at_deadline:
  assumes "map_of (store c) key = Some v" and "map_of (ttlMap c) key = Some d"
  shows "ttlExpire c key d = - 1 \<and> \<not> expired (Some d) d \<and> fst (get c key d) = Some v"
  using assms by (simp add: ttlExpire_def get_def expired_def Let_def)

text \<open>
  The key \<open>x\<close> is set at time 100 with a TTL of 50 ms, so its deadline is 150. One
  millisecond before the deadline \<^verbatim>\<open>ttlExpire\<close> returns 1; at the deadline it returns
  -1 while \<^verbatim>\<open>get\<close> returns the value; one millisecond later both agree that the entry
  has expired.
\<close>

theorem ttlExpire_at_deadline_witness:
  "(let c = state_of (set_cache empty_cache ''x'' 1 (Some 50) NoPriority NoTags 100)
    in map_of (store c) ''x'' = Some 1 \<and> map_of (ttlMap c) ''x'' = Some 150 \<and>
       ttlExpire c ''x'' 149 = 1 \<and>
       ttlExpire c ''x'' 150 = - 1 \<and> fst (get c ''x'' 150) = Some 1 \<and>
       ttlExpire c ''x'' 151 = - 1 \<and> fst (get c ''x'' 151) = None)"
proof -
  define c where "c = state_of (set_cache empty_cache ''x'' 1 (Some 50) NoPriority NoTags 100)"
  have s: "map_of (store c) ''x'' = Some 1"
    by (simp add: c_def state_of_def set_cache_def set_body_def empty_cache_def
        with_default_def new_Set_def Let_def)
  have t: "map_of (ttlMap c) ''x'' = Some 150"
    by (simp add: c_def state_of_def set_cache_def set_body_def empty_cache_def
        with_default_def new_Set_def Let_def)
  have "ttlExpire c ''x'' 149 = 1" "ttlExpire c ''x'' 151 = - 1" "fst (get c ''x'' 151) = None"
    using s t by (simp_all add: ttlExpire_def get_def expired_def Let_def)
  with ttlExpire_at_deadline [OF s t] s t show ?thesis
    by (simp add: c_def Let_def)
qed

subsection \<open>The tag index\<close>

lemma fold_add_tag_other:
  "t \<notin> set ts \<Longrightarrow>
   map_of (fold (\<lambda>tag tm. map_set tm tag
             (set_add (case map_of tm tag of None \<Rightarrow> [] | Some ks \<Rightarrow> ks) key)) ts tm) t
   = map_of tm t"
  by (induction ts arbitrary: tm) (auto simp add: update_conv')

lemma set_body_overwrite_tags:
  assumes "overWrite c" and "map_has (store c) key"
  shows "tagMap (set_body c key v ttl_arg p tags now) =
         fold (\<lambda>tag tm. map_set tm tag
                 (set_add (case map_of tm tag of None \<Rightarrow> [] | Some ks \<Rightarrow> ks) key))
           (new_Set tags) (tagMap c)"
    and "keyTags (set_body c key v ttl_arg p tags now) = map_set (keyTags c) key (new_Set tags)"
  using assms by (cases p; simp add: set_body_def Let_def split: option.splits)+

lemma stale_key_inconsistent:
  assumes "in_tagMap c t k" and "\<not> in_keyTags c k t"
  shows "\<not> tag_index_consistent c"
proof
  assume con: "tag_index_consistent c"
  from assms(1) obtain ks where ks: "map_of (tagMap c) t = Some ks" "k \<in> set ks"
    by (auto simp add: in_tagMap_def split: option.splits)
  then have "(t, ks) \<in> set (tagMap c)" by (simp add: map_of_SomeD)
  with con have "list_all (\<lambda>k. in_keyTags c k t) ks"
    by (auto simp add: tag_index_consistent_def list_all_iff)
  with ks assms(2) show False by (simp add: list_all_iff)
qed

text \<open>
  C1. The tag index after \<^verbatim>\<open>set\<close> on an existing key with a different tag list:
  \<^verbatim>\<open>set\<close> replaces the tag set of the key and adds the key under its new tags, but it
  does not remove the key from the key sets of the tags it had before. A tag \<open>t\<close> of the
  key that is not in the new list still lists the key, while the key no longer has
  \<open>t\<close>: the index is inconsistent after the call.
\<close>

theorem set_overwrite_keeps_stale_tag:
  assumes "overWrite c" and "map_has (store c) key" and "in_tagMap c t key" and "t \<notin> set tags"
  shows "in_tagMap (state_of (set_cache c key v ttl_arg p (Tags tags) now)) t key \<and>
         \<not> in_keyTags (state_of (set_cache c key v ttl_arg p (Tags tags) now)) key t \<and>
         \<not> tag_index_consistent (state_of (set_cache c key v ttl_arg p (Tags tags) now))"
proof -
  let ?c' = "set_body c key v ttl_arg p tags now"
  have st: "state_of (set_cache c key v ttl_arg p (Tags tags) now) = ?c'"
    by (simp add: state_of_def set_cache_def)
  from assms(4) have nt: "t \<notin> set (new_Set tags)" by (simp add: set_new_Set)
  have a: "in_tagMap ?c' t key"
    using assms(3) nt
    by (simp add: in_tagMap_def set_body_overwrite_tags [OF assms(1,2)] fold_add_tag_other)
  have b: "\<not> in_keyTags ?c' key t"
    using nt
    by (simp add: in_keyTags_def set_body_overwrite_tags [OF assms(1,2)] update_conv')
  from a b stale_key_inconsistent [OF a b] show ?thesis by (simp add: st)
qed

text \<open>
  On a new instance, \<^verbatim>\<open>set("k", 1, {tags: ["a"]})\<close> followed by
  \<^verbatim>\<open>set("k", 1, {tags: ["b"]})\<close>: the index is consistent after the first call; after
  the second the tag \<open>a\<close> still lists \<open>k\<close>, whose tag set is \<open>b\<close> alone. The state
  is a reachable one whose tag index is not consistent.
\<close>

theorem set_overwrite_keeps_stale_tag_witness:
  "(let c1 = state_of (set_cache empty_cache ''k'' 1 None NoPriority (Tags [''a'']) 5);
        c2 = state_of (set_cache c1 ''k'' 1 None NoPriority (Tags [''b'']) 6)
    in reachable c2 \<and>
       overWrite c1 \<and> map_has (store c1) ''k'' \<and> in_tagMap c1 ''a'' ''k'' \<and>
       ''a'' \<notin> set [''b''] \<and> tag_index_consistent c1 \<and>
       tagMap c2 = [(''a'', [''k'']), (''b'', [''k''])] \<and> keyTags c2 = [(''k'', [''b''])] \<and>
       in_tagMap c2 ''a'' ''k'' \<and> \<not> in_keyTags c2 ''k'' ''a'' \<and>
       \<not> tag_index_consistent c2)"
proof -
  define c1 where "c1 = state_of (set_cache empty_cache ''k'' 1 None NoPriority (Tags [''a'']) 5)"
  have c1: "c1 = empty_cache\<lparr> store := [(''k'', 1)], meta := [(''k'', 5)],
                              priorityMap := [(''k'', 0)], tagMap := [(''a'', [''k''])],
                              keyTags := [(''k'', [''a''])] \<rparr>"
    by (simp add: c1_def state_of_def set_cache_def set_body_def empty_cache_def
        with_default_def new_Set_def set_add_def Let_def)
  have h: "overWrite c1" "map_has (store c1) ''k''" "in_tagMap c1 ''a'' ''k''"
    "''a'' \<notin> set [''b'']"
    by (simp_all add: c1 empty_cache_def in_tagMap_def)
  have con: "tag_index_consistent c1"
    by (simp add: c1 empty_cache_def tag_index_consistent_def in_tagMap_def in_keyTags_def)
  have ev: "tagMap (state_of (set_cache c1 ''k'' 1 None NoPriority (Tags [''b'']) 6))
              = [(''a'', [''k'']), (''b'', [''k''])]"
    "keyTags (state_of (set_cache c1 ''k'' 1 None NoPriority (Tags [''b'']) 6)) = [(''k'', [''b''])]"
    by (simp_all add: c1 state_of_def set_cache_def set_body_def empty_cache_def
        with_default_def new_Set_def set_add_def Let_def)
  have "custom_ok empty_cache" by (simp add: custom_ok_def empty_cache_def)
  with AlisaCache_no_options have "reachable empty_cache" by (rule reachable.constructed)
  then have r: "reachable (state_of (set_cache c1 ''k'' 1 None NoPriority (Tags [''b'']) 6))"
    unfolding c1_def by (intro reachable.after_set)
  show ?thesis
    unfolding Let_def c1_def [symmetric]
    using set_overwrite_keeps_stale_tag [OF h, of 1 None NoPriority 6] h con ev r by simp
qed

text \<open>
  A second way to the same state of affairs: \<^verbatim>\<open>rename\<close> on a full cache. The
  \<^verbatim>\<open>set\<close> of the new key evicts the old key (the only entry), which drops the tag
  \<open>t\<close> from the tag map; the tags copied to the new key are then not indexed.
\<close>

lemma rename_at_capacity_breaks_tag_index:
  "(let c1 = state_of (set_cache (empty_cache\<lparr> limit := 1 \<rparr>) ''a'' 1 None NoPriority (Tags [''t'']) 5);
        c2 = snd (rename c1 ''a'' ''b'' 7)
    in tag_index_consistent c1 \<and> fst (rename c1 ''a'' ''b'' 7) \<and>
       store c2 = [(''b'', 1)] \<and> keyTags c2 = [(''b'', [''t''])] \<and> tagMap c2 = [] \<and>
       evictions c2 = 1 \<and> \<not> tag_index_consistent c2)"
  by (simp add: state_of_def set_cache_def set_body_def rename_def evict_def delete_def
      untag_def retag_def js_sort_def set_delete_def empty_cache_def with_default_def
      new_Set_def set_add_def tag_index_consistent_def in_tagMap_def in_keyTags_def Let_def)

subsection \<open>The sort of evict\<close>

lemma js_sort_Cons: "js_sort cmp (x # xs) = insert_sorted cmp x (js_sort cmp xs)"
  by (simp add: js_sort_def)

lemma set_insert_sorted: "set (insert_sorted cmp x ys) = insert x (set ys)"
  by (induction ys) auto

lemma set_js_sort: "set (js_sort cmp xs) = set xs"
proof (induction xs)
  case Nil
  then show ?case by (simp add: js_sort_def)
next
  case (Cons x xs)
  then show ?case by (simp add: js_sort_Cons set_insert_sorted)
qed

lemma length_insert_sorted: "length (insert_sorted cmp x ys) = Suc (length ys)"
  by (induction ys) auto

lemma length_js_sort: "length (js_sort cmp xs) = length xs"
  by (induction xs) (simp_all add: js_sort_def length_insert_sorted)

lemma js_sort_eq_Nil: "js_sort cmp xs = [] \<longleftrightarrow> xs = []"
  using length_js_sort [of cmp xs] by (metis length_0_conv)

lemma hd_js_sort_mem: "xs \<noteq> [] \<Longrightarrow> hd (js_sort cmp xs) \<in> set xs"
  using hd_in_set [of "js_sort cmp xs"] by (simp add: js_sort_eq_Nil set_js_sort)

lemma hd_insert_sorted:
  "hd (insert_sorted cmp x ys) = (if ys = [] \<or> cmp x (hd ys) \<le> 0 then x else hd ys)"
  by (cases ys) simp_all

text \<open>
  For a comparator that is total and transitive, the first element of the sorted array
  compares less than or equal to every element.
\<close>

lemma hd_js_sort_least:
  assumes total: "\<And>a b. cmp a b \<le> 0 \<or> cmp b a \<le> 0"
    and trans: "\<And>a b c. cmp a b \<le> 0 \<Longrightarrow> cmp b c \<le> 0 \<Longrightarrow> cmp a c \<le> 0"
    and "y \<in> set xs"
  shows "cmp (hd (js_sort cmp xs)) y \<le> 0"
  using assms(3)
proof (induction xs arbitrary: y)
  case Nil
  then show ?case by simp
next
  case (Cons x xs)
  show ?case
  proof (cases "xs = []")
    case True
    with Cons.prems total [of x x] show ?thesis by (simp add: js_sort_def)
  next
    case False
    let ?h = "hd (js_sort cmp xs)"
    from False have ne: "js_sort cmp xs \<noteq> []" by (simp add: js_sort_eq_Nil)
    from False have hx: "?h \<in> set xs" by (rule hd_js_sort_mem)
    show ?thesis
    proof (cases "cmp x ?h \<le> 0")
      case True
      with ne have hd: "hd (js_sort cmp (x # xs)) = x"
        by (simp add: js_sort_Cons hd_insert_sorted)
      show ?thesis
      proof (cases "y = x")
        case True
        with total [of x x] hd show ?thesis by simp
      next
        case False
        with Cons.prems have "y \<in> set xs" by simp
        then have "cmp ?h y \<le> 0" by (rule Cons.IH)
        with \<open>cmp x ?h \<le> 0\<close> have "cmp x y \<le> 0" by (rule trans)
        with hd show ?thesis by simp
      qed
    next
      case False
      with ne have hd: "hd (js_sort cmp (x # xs)) = ?h"
        by (simp add: js_sort_Cons hd_insert_sorted)
      show ?thesis
      proof (cases "y = x")
        case True
        with False total [of x ?h] hd show ?thesis by simp
      next
        case False
        with Cons.prems have "y \<in> set xs" by simp
        then have "cmp ?h y \<le> 0" by (rule Cons.IH)
        with hd show ?thesis by simp
      qed
    qed
  qed
qed

lemma compare_entries_le:
  "compare_entries c a b \<le> 0 \<longleftrightarrow>
    prio c (fst a) < prio c (fst b) \<or>
    (prio c (fst a) = prio c (fst b) \<and>
     (case strategy c of
        LRU \<Rightarrow> time_of c (fst a) \<le> time_of c (fst b)
      | FIFO \<Rightarrow> time_of c (fst a) \<le> time_of c (fst b)
      | MFU \<Rightarrow> time_of c (fst b) \<le> time_of c (fst a)
      | CUSTOM \<Rightarrow> True))"
  by (cases "strategy c") (auto simp add: compare_entries_def Let_def)

lemma compare_entries_total: "compare_entries c a b \<le> 0 \<or> compare_entries c b a \<le> 0"
  unfolding compare_entries_le by (cases "strategy c") auto

lemma compare_entries_trans:
  "compare_entries c a b \<le> 0 \<Longrightarrow> compare_entries c b d \<le> 0 \<Longrightarrow> compare_entries c a d \<le> 0"
  unfolding compare_entries_le by (cases "strategy c") auto

lemma evict_ranking:
  assumes "customEvict c = None" and "store c \<noteq> []"
  shows "evict c = (snd (delete c (fst (hd (js_sort (compare_entries c) (store c))))))
            \<lparr> evictions := evictions c + 1 \<rparr>"
  using assms by (simp add: evict_def Let_def delete_def split: option.splits)

lemma victim_in_store:
  "store c \<noteq> [] \<Longrightarrow> fst (hd (js_sort (compare_entries c) (store c))) \<in> fst ` set (store c)"
  by (rule imageI) (rule hd_js_sort_mem)

text \<open>Eviction leaves the priority of a key that is not in the store as it is.\<close>

lemma evict_priority_of_new_key:
  assumes "\<not> map_has (store c) key"
  shows "map_of (priorityMap (evict c)) key = map_of (priorityMap c) key"
proof (cases "customEvict c")
  case (Some f)
  then show ?thesis by (simp add: evict_def split: prod.splits)
next
  case None
  show ?thesis
  proof (cases "store c = []")
    case True
    with None show ?thesis by (simp add: evict_def)
  next
    case False
    let ?k = "fst (hd (js_sort (compare_entries c) (store c)))"
    from False have "?k \<in> fst ` set (store c)" by (rule victim_in_store)
    with assms have "?k \<noteq> key" by (auto simp add: map_of_eq_None_iff)
    with None False show ?thesis by (simp add: evict_ranking delete_fields)
  qed
qed

lemma length_map_delete:
  "distinct (map fst xs) \<Longrightarrow> k \<in> fst ` set xs \<Longrightarrow> length (map_delete xs k) + 1 = length xs"
proof (induction xs)
  case Nil
  then show ?case by simp
next
  case (Cons x xs)
  show ?case
  proof (cases "fst x = k")
    case True
    with Cons.prems have "k \<notin> fst ` set xs" by auto
    with True show ?thesis by (cases x) (simp add: delete_id)
  next
    case False
    with Cons show ?thesis by (cases x) auto
  qed
qed

subsection \<open>rename\<close>

lemma rename_fails:
  assumes "\<not> map_has (store c) oldKey \<or> map_has (store c) newKey"
  shows "rename c oldKey newKey now = (False, c)"
  using assms by (auto simp add: rename_def split: option.splits)

lemma set_body_new_key:
  assumes "\<not> map_has (store c) key"
  shows "map_of (store (set_body c key v ttl_arg p tags now)) key = Some v"
    and "map_of (meta (set_body c key v ttl_arg p tags now)) key = Some now"
    and "map_of (priorityMap (set_body c key v ttl_arg NoPriority tags now)) key = Some 0"
    and "map_of (priorityMap (set_body c key v ttl_arg (Priority q) tags now)) key = Some q"
    and "map_of (keyTags (set_body c key v ttl_arg p tags now)) key = Some (new_Set tags)"
  using assms
  by (cases p; simp add: set_body_def evict_priority_of_new_key Let_def update_conv'
      split: option.splits)+

text \<open>
  What \<^verbatim>\<open>rename\<close> does carry over when it succeeds: the value; the recency
  timestamp and the deadline when the old key has one (and it is not 0); the tag set of
  the old key. The new key gets priority 0 and the old key leaves the store.
\<close>

lemma rename_carries_over:
  assumes "map_of (store c) oldKey = Some v" and "\<not> map_has (store c) newKey"
  shows "fst (rename c oldKey newKey now)"
    and "map_of (store (snd (rename c oldKey newKey now))) newKey = Some v"
    and "\<not> map_has (store (snd (rename c oldKey newKey now))) oldKey"
    and "map_of (priorityMap (snd (rename c oldKey newKey now))) newKey = Some 0"
    and "map_of (meta c) oldKey = Some m \<Longrightarrow> m \<noteq> 0 \<Longrightarrow>
         map_of (meta (snd (rename c oldKey newKey now))) newKey = Some m"
    and "map_of (ttlMap c) oldKey = Some d \<Longrightarrow> d \<noteq> 0 \<Longrightarrow>
         map_of (ttlMap (snd (rename c oldKey newKey now))) newKey = Some d"
    and "map_of (keyTags c) oldKey = Some ts \<Longrightarrow>
         map_of (keyTags (snd (rename c oldKey newKey now))) newKey = Some (new_Set ts)"
proof -
  from assms have ne: "oldKey \<noteq> newKey" by auto
  note sb = set_body_new_key [OF assms(2), where v = v and ttl_arg = None and tags = "[]"
      and now = now]
  from assms ne sb show "fst (rename c oldKey newKey now)"
    and "map_of (store (snd (rename c oldKey newKey now))) newKey = Some v"
    and "\<not> map_has (store (snd (rename c oldKey newKey now))) oldKey"
    and "map_of (priorityMap (snd (rename c oldKey newKey now))) newKey = Some 0"
    by (simp_all add: rename_def Let_def delete_fields delete_conv' update_conv'
        split: option.splits)
  from assms ne sb show "map_of (meta c) oldKey = Some m \<Longrightarrow> m \<noteq> 0 \<Longrightarrow>
         map_of (meta (snd (rename c oldKey newKey now))) newKey = Some m"
    by (simp add: rename_def Let_def delete_fields delete_conv' update_conv'
        split: option.splits)
  from assms ne sb show "map_of (ttlMap c) oldKey = Some d \<Longrightarrow> d \<noteq> 0 \<Longrightarrow>
         map_of (ttlMap (snd (rename c oldKey newKey now))) newKey = Some d"
    by (simp add: rename_def Let_def delete_fields delete_conv' update_conv'
        split: option.splits)
  from assms ne sb show "map_of (keyTags c) oldKey = Some ts \<Longrightarrow>
         map_of (keyTags (snd (rename c oldKey newKey now))) newKey = Some (new_Set ts)"
    by (simp add: rename_def Let_def delete_fields delete_conv' update_conv'
        split: option.splits)
qed

text \<open>
  C6. \<^verbatim>\<open>rename\<close> and the deadline of an entry that has none: the new key is inserted
  by \<^verbatim>\<open>this.set(newKey, value)\<close>, which gives it the deadline of the cache-wide default
  TTL \<open>d\<close>, and \<^verbatim>\<open>if (ttl) this.ttlMap.set(newKey, ttl)\<close> copies a deadline only when
  the old key has one. An entry without deadline comes out of \<^verbatim>\<open>rename\<close> with the
  deadline \<open>now + d\<close>: its (absent) deadline is not carried over.
\<close>

theorem rename_gives_default_ttl:
  assumes "map_of (store c) oldKey = Some v" and "\<not> map_has (store c) newKey"
    and "map_of (ttlMap c) oldKey = None" and "ttl c = Some d" and "0 < d"
  shows "fst (rename c oldKey newKey now) \<and>
         map_of (ttlMap (snd (rename c oldKey newKey now))) newKey = Some (now + d)"
proof -
  from assms(1,2) have ne: "oldKey \<noteq> newKey" by auto
  have "map_of (ttlMap (set_body c newKey v None NoPriority [] now)) newKey = Some (now + d)"
    using assms(2,4,5) by (simp add: set_body_def Let_def update_conv')
  with assms ne show ?thesis
    by (simp add: rename_def Let_def delete_fields delete_conv' update_conv' split: option.splits)
qed

text \<open>
  \<^verbatim>\<open>new AlisaCache({ttl: 1000})\<close>; \<^verbatim>\<open>set("a", 1, {ttl: -1})\<close> at time 5 stores \<open>a\<close>
  without a deadline (\<^verbatim>\<open>ttlExpire\<close> is -1); \<^verbatim>\<open>rename("a", "b")\<close> at time 7 returns
  true and leaves \<open>b\<close> with the deadline 1007.

  The tags are not always carried over either. \<^verbatim>\<open>new AlisaCache({limit: 1})\<close>;
  \<^verbatim>\<open>set("a", 1, {tags: ["t"]})\<close>; \<^verbatim>\<open>rename("a", "b")\<close>: the cache is full, so the
  \<^verbatim>\<open>set\<close> of \<open>b\<close> evicts \<open>a\<close> and with it the tag \<open>t\<close> of the tag map. After the
  \<^verbatim>\<open>rename\<close> the tag set of \<open>b\<close> holds \<open>t\<close>, but the tag map is empty and
  \<^verbatim>\<open>getByTag("t")\<close>, which returned the value before, returns nothing.
\<close>

theorem rename_gives_default_ttl_witness:
  "AlisaCache (no_options\<lparr> opt_ttl := Some 1000 \<rparr>) = Inr (empty_cache\<lparr> ttl := Some 1000 \<rparr>) \<and>
   (let c1 = state_of (set_cache (empty_cache\<lparr> ttl := Some 1000 \<rparr>) ''a'' 1 (Some (- 1)) NoPriority NoTags 5);
        c2 = snd (rename c1 ''a'' ''b'' 7)
    in map_of (store c1) ''a'' = Some 1 \<and> \<not> map_has (store c1) ''b'' \<and>
       map_of (ttlMap c1) ''a'' = None \<and> ttl c1 = Some 1000 \<and> ttlExpire c1 ''a'' 7 = - 1 \<and>
       fst (rename c1 ''a'' ''b'' 7) \<and> map_of (ttlMap c2) ''b'' = Some 1007 \<and>
       store c2 = [(''b'', 1)] \<and> ttlExpire c2 ''b'' 7 = 1000) \<and>
   AlisaCache (no_options\<lparr> opt_limit := Some 1 \<rparr>) = Inr (empty_cache\<lparr> limit := 1 \<rparr>) \<and>
   (let c1 = state_of (set_cache (empty_cache\<lparr> limit := 1 \<rparr>) ''a'' 1 None NoPriority (Tags [''t'']) 5);
        c2 = snd (rename c1 ''a'' ''b'' 7)
    in fst (getByTag c1 ''t'' 6) = [1] \<and> fst (rename c1 ''a'' ''b'' 7) \<and>
       store c2 = [(''b'', 1)] \<and> keyTags c2 = [(''b'', [''t''])] \<and> tagMap c2 = [] \<and>
       fst (getByTag c2 ''t'' 8) = [])"
proof -
  define c1 where
    "c1 = state_of (set_cache (empty_cache\<lparr> ttl := Some 1000 \<rparr>) ''a'' 1 (Some (- 1)) NoPriority NoTags 5)"
  have c1: "c1 = empty_cache\<lparr> ttl := Some 1000, store := [(''a'', 1)], meta := [(''a'', 5)],
                              priorityMap := [(''a'', 0)], keyTags := [(''a'', [])] \<rparr>"
    by (simp add: c1_def state_of_def set_cache_def set_body_def empty_cache_def
        with_default_def new_Set_def Let_def)
  have h: "map_of (store c1) ''a'' = Some 1" "\<not> map_has (store c1) ''b''"
    "map_of (ttlMap c1) ''a'' = None" "ttl c1 = Some 1000" "(0::int) < 1000"
    by (simp_all add: c1 empty_cache_def)
  have e: "ttlExpire c1 ''a'' 7 = - 1" by (simp add: ttlExpire_def h)
  have s: "store (snd (rename c1 ''a'' ''b'' 7)) = [(''b'', 1)]"
    by (simp add: c1 rename_def set_body_def delete_def empty_cache_def new_Set_def Let_def)
  have a: "AlisaCache (no_options\<lparr> opt_ttl := Some 1000 \<rparr>) = Inr (empty_cache\<lparr> ttl := Some 1000 \<rparr>)"
    by (simp add: AlisaCache_def no_options_def empty_cache_def with_default_def)
  have e2: "ttlExpire (snd (rename c1 ''a'' ''b'' 7)) ''b'' 7 = 1000"
    using rename_gives_default_ttl [OF h, of 7] s by (simp add: ttlExpire_def)
  define d1 where
    "d1 = state_of (set_cache (empty_cache\<lparr> limit := 1 \<rparr>) ''a'' 1 None NoPriority (Tags [''t'']) 5)"
  have d1: "d1 = empty_cache\<lparr> limit := 1, store := [(''a'', 1)], meta := [(''a'', 5)],
                              priorityMap := [(''a'', 0)], tagMap := [(''t'', [''a''])],
                              keyTags := [(''a'', [''t''])] \<rparr>"
    by (simp add: d1_def state_of_def set_cache_def set_body_def empty_cache_def
        with_default_def new_Set_def set_add_def Let_def)
  have d2: "snd (rename d1 ''a'' ''b'' 7)
              = empty_cache\<lparr> limit := 1, evictions := 1, store := [(''b'', 1)],
                               meta := [(''b'', 5)], priorityMap := [(''b'', 0)],
                               keyTags := [(''b'', [''t''])] \<rparr>"
    "fst (rename d1 ''a'' ''b'' 7)"
    unfolding d1
    by (simp_all add: rename_def set_body_def evict_def delete_def untag_def retag_def
        js_sort_def set_delete_def empty_cache_def new_Set_def set_add_def Let_def)
  have g: "fst (getByTag d1 ''t'' 6) = [1]" "fst (getByTag (snd (rename d1 ''a'' ''b'' 7)) ''t'' 8) = []"
    unfolding d2 unfolding d1
    by (simp_all add: getByTag_def get_def expired_def empty_cache_def)
  have b: "AlisaCache (no_options\<lparr> opt_limit := Some 1 \<rparr>) = Inr (empty_cache\<lparr> limit := 1 \<rparr>)"
    by (simp add: AlisaCache_def no_options_def empty_cache_def with_default_def)
  have t: "store (snd (rename d1 ''a'' ''b'' 7)) = [(''b'', 1)]"
    "keyTags (snd (rename d1 ''a'' ''b'' 7)) = [(''b'', [''t''])]"
    "tagMap (snd (rename d1 ''a'' ''b'' 7)) = []"
    unfolding d2 by (simp_all add: empty_cache_def)
  show ?thesis
    unfolding Let_def c1_def [symmetric] d1_def [symmetric]
    using rename_gives_default_ttl [OF h, of 7] h e e2 s a b g t d2(2) by simp
qed

subsection \<open>loadSnapshot on a malformed snapshot\<close>

text \<open>
  C2, as the claim states it, fails. On a cache holding one entry, the object \<^verbatim>\<open>{}\<close>, a
  structured record with every required collection missing, is loaded without an error
  and leaves the cache empty; so is the object \<^verbatim>\<open>{data: [["y", 2]]}\<close>, which leaves the
  one entry \<open>y\<close>.
\<close>

theorem loadSnapshot_malformed_counterexample:
  "(let c = state_of (set_cache empty_cache ''x'' 1 None (Priority 5) (Tags [''t'']) 100)
    in store c = [(''x'', 1)] \<and>
       loadSnapshot c (Object empty_object) = Inr empty_cache \<and>
       loadSnapshot c (Object (empty_object\<lparr> snap_data := Array [Entry (''y'', 2)] \<rparr>))
         = Inr (empty_cache\<lparr> store := [(''y'', 2)] \<rparr>))"
  by (simp add: state_of_def set_cache_def set_body_def new_Set_def set_add_def
      loadSnapshot_def iterate_def flush_def with_default_def Let_def empty_object_def
      empty_cache_def)

text \<open>
  C2, amended. A snapshot that is not an object makes \<^verbatim>\<open>loadSnapshot\<close> throw a
  CacheError before anything is changed: that check precedes the clearing. A missing
  collection does not make a snapshot malformed: it is read as the empty array
  (\<^verbatim>\<open>snapshot.data || []\<close>) and missing counters as 0, so the object with every
  collection missing is accepted and leaves the cache empty with its counters at 0.
\<close>

theorem loadSnapshot_validation:
  "loadSnapshot c NotAnObject = Inl (CacheError, c) \<and>
   loadSnapshot c (Object f) =
     loadSnapshot c (Object (f\<lparr> snap_data := or_empty (snap_data f),
                                  snap_meta := or_empty (snap_meta f),
                                  snap_ttlMap := or_empty (snap_ttlMap f),
                                  snap_tagMap := or_empty (snap_tagMap f),
                                  snap_keyTags := or_empty (snap_keyTags f) \<rparr>)) \<and>
   loadSnapshot c (Object \<lparr> snap_data = Missing, snap_meta = Missing, snap_ttlMap = Missing,
                            snap_tagMap = Missing, snap_keyTags = Missing, snap_stats = None \<rparr>)
     = Inr ((flush c)\<lparr> hits := 0, misses := 0, evictions := 0 \<rparr>)"
proof -
  have e: "iterate (or_empty coll) body s = iterate coll body s"
    for coll :: "'x js_collection" and body :: "'x \<Rightarrow> 'y \<Rightarrow> 'y" and s
    by (cases coll) (simp_all add: or_empty_def iterate_def)
  have "loadSnapshot c NotAnObject = Inl (CacheError, c)"
    by (simp add: loadSnapshot_def)
  moreover have "loadSnapshot c (Object f) =
     loadSnapshot c (Object (f\<lparr> snap_data := or_empty (snap_data f),
                                  snap_meta := or_empty (snap_meta f),
                                  snap_ttlMap := or_empty (snap_ttlMap f),
                                  snap_tagMap := or_empty (snap_tagMap f),
                                  snap_keyTags := or_empty (snap_keyTags f) \<rparr>))"
    by (simp add: loadSnapshot_def e Let_def cong: if_cong prod.case_cong)
  moreover have "loadSnapshot c (Object \<lparr> snap_data = Missing, snap_meta = Missing,
                            snap_ttlMap = Missing, snap_tagMap = Missing,
                            snap_keyTags = Missing, snap_stats = None \<rparr>)
     = Inr ((flush c)\<lparr> hits := 0, misses := 0, evictions := 0 \<rparr>)"
    by (simp add: loadSnapshot_def iterate_def flush_def with_default_def Let_def)
  ultimately show ?thesis by (intro conjI)
qed

text \<open>
  Not part of the amended claim: a collection that is present but is not a list of
  pairs. The check \<^verbatim>\<open>"Invalid snapshot"\<close> does not look at the collections, and the
  \<^verbatim>\<open>for...of\<close> that meets such a collection throws its TypeError after
  \<^verbatim>\<open>flush()\<close> has run (and after the pairs before the offending element have been
  stored), where the claim asks for an unchanged state.
\<close>

lemma loadSnapshot_not_a_list_of_pairs:
  "(let c = state_of (set_cache empty_cache ''x'' 1 None (Priority 5) (Tags [''t'']) 100)
    in store c = [(''x'', 1)] \<and>
       loadSnapshot c (Object (empty_object\<lparr> snap_data := NotIterable \<rparr>))
         = Inl (TypeError, empty_cache) \<and>
       loadSnapshot c (Object (empty_object\<lparr> snap_data := Array [Entry (''y'', 2), NotAPair] \<rparr>))
         = Inl (TypeError, empty_cache\<lparr> store := [(''y'', 2)] \<rparr>))"
  by (simp add: state_of_def set_cache_def set_body_def new_Set_def set_add_def
      loadSnapshot_def iterate_def flush_def with_default_def Let_def empty_object_def
      empty_cache_def)

subsection \<open>set with overWrite disabled\<close>

text \<open>
  C3, as the claim states it, fails: \<^verbatim>\<open>new AlisaCache({overWrite: false})\<close>,
  \<^verbatim>\<open>set("x", 1, {priority: 5})\<close>, then \<^verbatim>\<open>set("x", 2, {priority: 7})\<close>. The second
  call leaves the value as it is, but the priority of \<open>x\<close> goes from 5 to 7: a numeric
  priority is written before the check of \<^verbatim>\<open>overWrite\<close>.
\<close>

theorem set_no_overwrite_counterexample:
  "AlisaCache (no_options\<lparr> opt_overWrite := Some False \<rparr>) = Inr (empty_cache\<lparr> overWrite := False \<rparr>) \<and>
   (let c1 = state_of (set_cache (empty_cache\<lparr> overWrite := False \<rparr>) ''x'' 1 None (Priority 5) NoTags 100);
        c2 = state_of (set_cache c1 ''x'' 2 None (Priority 7) NoTags 101)
    in \<not> overWrite c1 \<and> map_has (store c1) ''x'' \<and> store c2 = store c1 \<and>
       priorityMap c1 = [(''x'', 5)] \<and> priorityMap c2 = [(''x'', 7)] \<and>
       prio c1 ''x'' = 5 \<and> prio c2 ''x'' = 7 \<and> c2 \<noteq> c1)"
proof -
  define c1 where
    "c1 = state_of (set_cache (empty_cache\<lparr> overWrite := False \<rparr>) ''x'' 1 None (Priority 5) NoTags 100)"
  define c2 where "c2 = state_of (set_cache c1 ''x'' 2 None (Priority 7) NoTags 101)"
  have c1: "c1 = empty_cache\<lparr> overWrite := False, store := [(''x'', 1)], meta := [(''x'', 100)],
                              priorityMap := [(''x'', 5)], keyTags := [(''x'', [])] \<rparr>"
    by (simp add: c1_def state_of_def set_cache_def set_body_def empty_cache_def
        new_Set_def Let_def)
  have c2: "c2 = c1\<lparr> priorityMap := [(''x'', 7)] \<rparr>"
    by (simp add: c2_def c1 state_of_def set_cache_def set_body_def empty_cache_def Let_def)
  have p: "priorityMap c1 = [(''x'', 5)]" "priorityMap c2 = [(''x'', 7)]"
    by (simp_all add: c2 c1 empty_cache_def)
  then have "priorityMap c2 \<noteq> priorityMap c1" by simp
  then have ne: "c2 \<noteq> c1" by auto
  have a: "AlisaCache (no_options\<lparr> opt_overWrite := Some False \<rparr>)
             = Inr (empty_cache\<lparr> overWrite := False \<rparr>)"
    by (simp add: AlisaCache_def no_options_def empty_cache_def with_default_def)
  have "\<not> overWrite c1" "map_has (store c1) ''x''" "store c2 = store c1"
    "prio c1 ''x'' = 5" "prio c2 ''x'' = 7"
    by (simp_all add: c2 c1 empty_cache_def prio_def)
  with p ne a show ?thesis
    unfolding Let_def c1_def [symmetric] c2_def [symmetric] by simp
qed

text \<open>
  C3, amended. With \<^verbatim>\<open>overWrite\<close> disabled and the key in the store,
  \<^verbatim>\<open>set(key, value, options)\<close> throws when \<^verbatim>\<open>tags\<close> is not an array, changing
  nothing. Otherwise it returns: with a numeric \<^verbatim>\<open>options.priority\<close> after one change,
  the priority of the key is set to that number; with an \<^verbatim>\<open>options.priority\<close> that is
  not a number after no change at all. The value, the recency timestamp, the deadline and
  the tag associations of every key, the priorities of the other keys and the counters
  are as before.
\<close>

theorem set_no_overwrite:
  assumes "\<not> overWrite c" and "map_has (store c) key"
  shows "set_cache c key v ttl_arg (Priority p) tags_arg now =
      (if tags_arg = NotAnArray then Inl (CacheError, c)
       else Inr (c\<lparr> priorityMap := map_set (priorityMap c) key p \<rparr>)) \<and>
    set_cache c key v ttl_arg NotANumber tags_arg now =
      (if tags_arg = NotAnArray then Inl (CacheError, c) else Inr c)"
  using assms by (simp add: set_cache_def set_body_def Let_def split: tags_arg.splits)

theorem set_no_overwrite_witness:
  "(let c1 = state_of (set_cache (empty_cache\<lparr> overWrite := False \<rparr>) ''x'' 1 None (Priority 5) NoTags 100)
    in \<not> overWrite c1 \<and> map_has (store c1) ''x'' \<and>
       set_cache c1 ''x'' 2 (Some 30) (Priority 7) (Tags [''t'']) 101
         = Inr (c1\<lparr> priorityMap := [(''x'', 7)] \<rparr>) \<and>
       set_cache c1 ''x'' 2 (Some 30) NotANumber (Tags [''t'']) 101 = Inr c1 \<and>
       set_cache c1 ''x'' 2 (Some 30) (Priority 7) NotAnArray 101 = Inl (CacheError, c1))"
proof -
  define c1 where
    "c1 = state_of (set_cache (empty_cache\<lparr> overWrite := False \<rparr>) ''x'' 1 None (Priority 5) NoTags 100)"
  have c1: "c1 = empty_cache\<lparr> overWrite := False, store := [(''x'', 1)], meta := [(''x'', 100)],
                              priorityMap := [(''x'', 5)], keyTags := [(''x'', [])] \<rparr>"
    by (simp add: c1_def state_of_def set_cache_def set_body_def empty_cache_def
        new_Set_def Let_def)
  have h: "\<not> overWrite c1" "map_has (store c1) ''x''"
    by (simp_all add: c1 empty_cache_def)
  have p: "map_set (priorityMap c1) ''x'' 7 = [(''x'', 7)]"
    by (simp add: c1 empty_cache_def)
  show ?thesis
    unfolding Let_def c1_def [symmetric]
    using set_no_overwrite [OF h, of 2 "Some 30" 7 "Tags [''t'']" 101]
      set_no_overwrite [OF h, of 2 "Some 30" 7 NotAnArray 101] h p
    by simp
qed

text \<open>
  Not part of the amended claim: a call that gives no priority at all. The default 0 of
  the destructuring is a number, so the write placed before the check of
  \<^verbatim>\<open>overWrite\<close> runs for it too and the priority of the key becomes 0, where the claim
  asks for an unchanged priority.
\<close>

lemma set_no_overwrite_without_priority:
  assumes "\<not> overWrite c" and "map_has (store c) key" and "tags_arg \<noteq> NotAnArray"
  shows "set_cache c key v ttl_arg NoPriority tags_arg now =
      Inr (c\<lparr> priorityMap := map_set (priorityMap c) key 0 \<rparr>)"
  using assms by (simp add: set_cache_def set_body_def Let_def split: tags_arg.splits)

subsection \<open>Eviction\<close>

lemma two_entries_eq:
  "two_entries (example_instance s f) =
     (example_instance s f)\<lparr> store := [(''a'', 1), (''b'', 2)], meta := [(''a'', 10), (''b'', 20)],
                              priorityMap := [(''a'', 2), (''b'', 1)],
                              keyTags := [(''a'', []), (''b'', [])] \<rparr>"
  by (simp add: two_entries_def example_instance_def state_of_def set_cache_def set_body_def
      empty_cache_def with_default_def new_Set_def Let_def)

lemma two_equal_entries_eq:
  "two_equal_entries (example_instance s f) =
     (example_instance s f)\<lparr> store := [(''a'', 1), (''b'', 2)], meta := [(''a'', 10), (''b'', 20)],
                              priorityMap := [(''a'', 0), (''b'', 0)],
                              keyTags := [(''a'', []), (''b'', [])] \<rparr>"
  by (simp add: two_equal_entries_def example_instance_def state_of_def set_cache_def set_body_def
      empty_cache_def with_default_def new_Set_def Let_def)

lemma AlisaCache_example:
  "s = Some CUSTOM \<longrightarrow> f \<noteq> None \<Longrightarrow>
   AlisaCache (example_options s f) = Inr (example_instance (with_default LRU s) f)"
  by (auto simp add: AlisaCache_def example_options_def example_instance_def no_options_def
      empty_cache_def with_default_def split: option.splits)

text \<open>
  C4, as the claim states it, fails under the CUSTOM strategy. The instance has room for
  two entries and holds \<open>a\<close> and \<open>b\<close>. With a custom function that removes the first
  entry, \<^verbatim>\<open>evict\<close> (alone, and inside the \<^verbatim>\<open>set\<close> of a third key) removes one entry
  and leaves the evictions counter at 0. With a custom function that removes nothing,
  it removes no entry, and the store holds three entries after the \<^verbatim>\<open>set\<close>.
\<close>

theorem evict_custom_counterexample:
  "AlisaCache (example_options (Some CUSTOM) (Some evict_first))
     = Inr (example_instance CUSTOM (Some evict_first)) \<and>
   (let c = two_entries (example_instance CUSTOM (Some evict_first));
        c' = state_of (set_cache c ''c'' 3 None NoPriority NoTags 30)
    in limit c \<le> int (length (store c)) \<and> \<not> map_has (store c) ''c'' \<and>
       store (evict c) = [(''b'', 2)] \<and> evictions (evict c) = evictions c \<and>
       store c' = [(''b'', 2), (''c'', 3)] \<and> evictions c' = 0) \<and>
   (let c = two_entries (example_instance CUSTOM (Some (\<lambda>sm. sm)));
        c' = state_of (set_cache c ''c'' 3 None NoPriority NoTags 30)
    in store (evict c) = store c \<and> evictions (evict c) = evictions c \<and>
       store c' = [(''a'', 1), (''b'', 2), (''c'', 3)] \<and> evictions c' = 0)"
  unfolding two_entries_eq
  by (simp add: AlisaCache_example [of "Some CUSTOM" "Some evict_first", simplified with_default_def]
      example_instance_def empty_cache_def evict_def evict_first_def
      state_of_def set_cache_def set_body_def with_default_def new_Set_def Let_def)

text \<open>
  C4, amended. Without a custom eviction function, every invocation of \<^verbatim>\<open>evict\<close>
  that \<^verbatim>\<open>set\<close> triggers (the store holds at least \<^verbatim>\<open>limit\<close> entries, and
  \<^verbatim>\<open>limit\<close> is positive) removes exactly one entry of the store and increments the
  evictions counter by exactly one (the store holds no key twice, as every \<^verbatim>\<open>Map\<close>).
  With a custom eviction function, as under the CUSTOM
  strategy, the store after the eviction is the one the function leaves, and the
  evictions counter is not incremented.
\<close>

theorem evict_removes_one:
  "(customEvict c = None \<and> 0 < limit c \<and> limit c \<le> int (length (store c)) \<and>
    distinct (map fst (store c)) \<longrightarrow>
      (\<exists>k. k \<in> fst ` set (store c) \<and> store (evict c) = map_delete (store c) k \<and>
           length (store (evict c)) + 1 = length (store c) \<and>
           evictions (evict c) = evictions c + 1)) \<and>
   (\<forall>f. customEvict c = Some f \<longrightarrow>
      store (evict c) = fst (f (store c, meta c)) \<and> evictions (evict c) = evictions c)"
proof (intro conjI impI allI)
  assume a: "customEvict c = None \<and> 0 < limit c \<and> limit c \<le> int (length (store c)) \<and>
    distinct (map fst (store c))"
  then have ne: "store c \<noteq> []" by auto
  let ?k = "fst (hd (js_sort (compare_entries c) (store c)))"
  from ne have mem: "?k \<in> fst ` set (store c)" by (rule victim_in_store)
  from a ne have ev: "evict c = (snd (delete c ?k))\<lparr> evictions := evictions c + 1 \<rparr>"
    by (simp add: evict_ranking)
  then have st: "store (evict c) = map_delete (store c) ?k" by (simp add: delete_fields)
  from ev have "evictions (evict c) = evictions c + 1" by simp
  moreover from a mem have "length (store (evict c)) + 1 = length (store c)"
    using length_map_delete [of "store c" ?k] by (simp add: st)
  ultimately show "\<exists>k. k \<in> fst ` set (store c) \<and> store (evict c) = map_delete (store c) k \<and>
           length (store (evict c)) + 1 = length (store c) \<and>
           evictions (evict c) = evictions c + 1" using mem st by blast
next
  fix f assume "customEvict c = Some f"
  then show "store (evict c) = fst (f (store c, meta c))" "evictions (evict c) = evictions c"
    by (simp_all add: evict_def split: prod.splits)
qed

theorem evict_removes_one_witness:
  "(let c = two_entries (example_instance LRU None)
    in customEvict c = None \<and> 0 < limit c \<and> limit c \<le> int (length (store c)) \<and>
       distinct (map fst (store c)) \<and>
       (\<exists>k. k \<in> fst ` set (store c) \<and> store (evict c) = map_delete (store c) k \<and>
            length (store (evict c)) + 1 = length (store c) \<and>
            evictions (evict c) = evictions c + 1)) \<and>
   (let c = two_entries (example_instance CUSTOM (Some evict_first))
    in customEvict c = Some evict_first \<and>
       store (evict c) = fst (evict_first (store c, meta c)) \<and>
       evictions (evict c) = evictions c)"
proof -
  define c where "c = two_entries (example_instance LRU None)"
  define c' where "c' = two_entries (example_instance CUSTOM (Some evict_first))"
  have h: "customEvict c = None \<and> 0 < limit c \<and> limit c \<le> int (length (store c)) \<and>
       distinct (map fst (store c))"
    unfolding c_def two_entries_eq by (simp add: example_instance_def empty_cache_def)
  have h': "customEvict c' = Some evict_first"
    unfolding c'_def two_entries_eq by (simp add: example_instance_def empty_cache_def)
  show ?thesis
    unfolding Let_def c_def [symmetric] c'_def [symmetric]
    using evict_removes_one [of c] evict_removes_one [of c'] h h' by simp
qed

text \<open>
  C5, as the claim states it, fails when the instance was given a custom eviction
  function together with one of the three strategies: \<^verbatim>\<open>evict\<close> then calls the
  function and ranks nothing. Under LRU with a function that removes the first entry,
  the entries \<open>a\<close> (priority 2) and \<open>b\<close> (priority 1) have distinct priorities, and the
  eviction removes \<open>a\<close> and keeps \<open>b\<close>, the entry of lowest priority.
\<close>

theorem evict_ranking_counterexample:
  "AlisaCache (example_options (Some LRU) (Some evict_first))
     = Inr (example_instance LRU (Some evict_first)) \<and>
   (let c = two_entries (example_instance LRU (Some evict_first));
        c' = state_of (set_cache c ''c'' 3 None NoPriority NoTags 30)
    in strategy c = LRU \<and> limit c \<le> int (length (store c)) \<and>
       store c = [(''a'', 1), (''b'', 2)] \<and> prio c ''a'' = 2 \<and> prio c ''b'' = 1 \<and>
       store (evict c) = [(''b'', 2)] \<and> store c' = [(''b'', 2), (''c'', 3)])"
  unfolding two_entries_eq
  by (simp add: AlisaCache_example [of "Some LRU" "Some evict_first", simplified with_default_def]
      example_instance_def empty_cache_def evict_def evict_first_def prio_def
      state_of_def set_cache_def set_body_def with_default_def new_Set_def Let_def)

text \<open>
  C5, amended. When no custom eviction function was supplied, \<^verbatim>\<open>evict\<close> on a
  non-empty store removes one key \<open>k\<close> of the store, chosen as follows: no entry has a
  lower priority than \<open>k\<close>; among the entries of the same priority as \<open>k\<close>, none has an
  older recency timestamp under LRU and FIFO, and none a newer one under MFU. In
  particular, when the priorities of the entries are pairwise distinct, \<open>k\<close> is the entry
  of lowest priority, whatever its recency.
\<close>

theorem evict_lowest_priority_first:
  assumes "customEvict c = None" and "store c \<noteq> []"
  shows "\<exists>k. k \<in> fst ` set (store c) \<and>
           evict c = (snd (delete c k))\<lparr> evictions := evictions c + 1 \<rparr> \<and>
           store (evict c) = map_delete (store c) k \<and>
           (\<forall>k' \<in> fst ` set (store c). prio c k \<le> prio c k') \<and>
           (\<forall>k' \<in> fst ` set (store c). prio c k' = prio c k \<longrightarrow>
              (case strategy c of
                 LRU \<Rightarrow> time_of c k \<le> time_of c k'
               | FIFO \<Rightarrow> time_of c k \<le> time_of c k'
               | MFU \<Rightarrow> time_of c k' \<le> time_of c k
               | CUSTOM \<Rightarrow> True)) \<and>
           (inj_on (prio c) (fst ` set (store c)) \<longrightarrow>
              (\<forall>k' \<in> fst ` set (store c). k' \<noteq> k \<longrightarrow> prio c k < prio c k'))"
proof -
  let ?h = "hd (js_sort (compare_entries c) (store c))"
  let ?k = "fst ?h"
  have least: "compare_entries c ?h y \<le> 0" if "y \<in> set (store c)" for y
    using compare_entries_total compare_entries_trans that by (rule hd_js_sort_least)
  have mem: "?k \<in> fst ` set (store c)" using assms(2) by (rule victim_in_store)
  have ev: "evict c = (snd (delete c ?k))\<lparr> evictions := evictions c + 1 \<rparr>"
    using assms by (rule evict_ranking)
  then have st: "store (evict c) = map_delete (store c) ?k" by (simp add: delete_fields)
  have le: "prio c ?k < prio c k' \<or>
      (prio c ?k = prio c k' \<and>
       (case strategy c of
          LRU \<Rightarrow> time_of c ?k \<le> time_of c k'
        | FIFO \<Rightarrow> time_of c ?k \<le> time_of c k'
        | MFU \<Rightarrow> time_of c k' \<le> time_of c ?k
        | CUSTOM \<Rightarrow> True))" if "k' \<in> fst ` set (store c)" for k'
  proof -
    from that obtain y where "y \<in> set (store c)" "k' = fst y" by auto
    with least [of y] show ?thesis by (auto simp add: compare_entries_le)
  qed
  have p1: "\<forall>k' \<in> fst ` set (store c). prio c ?k \<le> prio c k'" using le by fastforce
  have p2: "\<forall>k' \<in> fst ` set (store c). prio c k' = prio c ?k \<longrightarrow>
              (case strategy c of
                 LRU \<Rightarrow> time_of c ?k \<le> time_of c k'
               | FIFO \<Rightarrow> time_of c ?k \<le> time_of c k'
               | MFU \<Rightarrow> time_of c k' \<le> time_of c ?k
               | CUSTOM \<Rightarrow> True)" using le by fastforce
  have p3: "inj_on (prio c) (fst ` set (store c)) \<longrightarrow>
              (\<forall>k' \<in> fst ` set (store c). k' \<noteq> ?k \<longrightarrow> prio c ?k < prio c k')"
  proof (intro impI ballI)
    fix k' assume inj: "inj_on (prio c) (fst ` set (store c))"
      and k': "k' \<in> fst ` set (store c)" and ne: "k' \<noteq> ?k"
    from inj k' mem ne have "prio c k' \<noteq> prio c ?k" by (auto dest: inj_onD)
    with p1 k' show "prio c ?k < prio c k'" by fastforce
  qed
  from mem ev st p1 p2 p3 show ?thesis by blast
qed

text \<open>
  Under LRU without a custom function, with \<open>a\<close> (priority 2, written at time 10) and
  \<open>b\<close> (priority 1, written at time 20): the eviction removes \<open>b\<close>, the entry used most
  recently, because its priority is the lowest. With both entries at priority 0, LRU and
  FIFO remove \<open>a\<close>, the older one, and MFU removes \<open>b\<close>, the newer one.
\<close>

theorem evict_lowest_priority_first_witness:
  "store (evict (two_equal_entries (example_instance LRU None))) = [(''b'', 2)] \<and>
   store (evict (two_equal_entries (example_instance FIFO None))) = [(''b'', 2)] \<and>
   store (evict (two_equal_entries (example_instance MFU None))) = [(''a'', 1)] \<and>
   (let c = two_entries (example_instance LRU None)
    in customEvict c = None \<and> store c \<noteq> [] \<and>
       inj_on (prio c) (fst ` set (store c)) \<and>
       prio c ''b'' < prio c ''a'' \<and> time_of c ''a'' < time_of c ''b'' \<and>
       store (evict c) = [(''a'', 1)] \<and>
       (\<exists>k. k \<in> fst ` set (store c) \<and>
           evict c = (snd (delete c k))\<lparr> evictions := evictions c + 1 \<rparr> \<and>
           store (evict c) = map_delete (store c) k \<and>
           (\<forall>k' \<in> fst ` set (store c). prio c k \<le> prio c k') \<and>
           (\<forall>k' \<in> fst ` set (store c). prio c k' = prio c k \<longrightarrow>
              (case strategy c of
                 LRU \<Rightarrow> time_of c k \<le> time_of c k'
               | FIFO \<Rightarrow> time_of c k \<le> time_of c k'
               | MFU \<Rightarrow> time_of c k' \<le> time_of c k
               | CUSTOM \<Rightarrow> True)) \<and>
           (inj_on (prio c) (fst ` set (store c)) \<longrightarrow>
              (\<forall>k' \<in> fst ` set (store c). k' \<noteq> k \<longrightarrow> prio c k < prio c k'))))"
proof -
  define c where "c = two_entries (example_instance LRU None)"
  have c: "c = (example_instance LRU None)\<lparr> store := [(''a'', 1), (''b'', 2)],
                 meta := [(''a'', 10), (''b'', 20)], priorityMap := [(''a'', 2), (''b'', 1)],
                 keyTags := [(''a'', []), (''b'', [])] \<rparr>"
    by (simp add: c_def two_entries_eq)
  have h: "customEvict c = None" "store c \<noteq> []"
    by (simp_all add: c example_instance_def empty_cache_def)
  have i: "inj_on (prio c) (fst ` set (store c))"
    by (simp add: c example_instance_def empty_cache_def prio_def)
  have p: "prio c ''b'' < prio c ''a''" "time_of c ''a'' < time_of c ''b''"
    by (simp_all add: c example_instance_def empty_cache_def prio_def time_of_def)
  have e: "store (evict c) = [(''a'', 1)]"
    by (simp add: c example_instance_def empty_cache_def evict_def js_sort_def
        compare_entries_def prio_def time_of_def delete_def Let_def)
  have q: "store (evict (two_equal_entries (example_instance LRU None))) = [(''b'', 2)]"
    "store (evict (two_equal_entries (example_instance FIFO None))) = [(''b'', 2)]"
    "store (evict (two_equal_entries (example_instance MFU None))) = [(''a'', 1)]"
    unfolding two_equal_entries_eq
    by (simp_all add: example_instance_def empty_cache_def evict_def js_sort_def
        compare_entries_def prio_def time_of_def delete_def Let_def)
  show ?thesis
    unfolding Let_def c_def [symmetric]
    using evict_lowest_priority_first [OF h] h i p e q by simp
qed

text \<open>
  C9. A custom eviction function given to the constructor is kept whatever the strategy
  is (the constructor asks for one under CUSTOM and accepts one under LRU, FIFO and MFU),
  and whenever the instance has one, \<^verbatim>\<open>evict\<close> does nothing but call it: the store and
  the recency map are the ones the function leaves, every other field, the evictions
  counter among them, is as before, and the entries are not ranked.
\<close>

theorem customEvict_delegates:
  "(customEvict c = Some f \<longrightarrow>
      evict c = c\<lparr> store := fst (f (store c, meta c)), meta := snd (f (store c, meta c)) \<rparr> \<and>
      evictions (evict c) = evictions c) \<and>
   (opt_customEvict opts = Some f \<and> 0 < with_default 100 (opt_limit opts) \<longrightarrow>
      (\<exists>c'. AlisaCache opts = Inr c' \<and> customEvict c' = Some f \<and>
            strategy c' = with_default LRU (opt_strategy opts)))"
  by (auto simp add: evict_def AlisaCache_def Let_def split: prod.splits)

text \<open>
  Under LRU with the function that removes the first entry: the eviction removes \<open>a\<close>,
  which the ranking would have kept (\<open>b\<close> has the lowest priority), and the evictions
  counter stays at 0, also when \<^verbatim>\<open>set\<close> triggers the eviction.
\<close>

theorem customEvict_delegates_witness:
  "(let opts = example_options (Some LRU) (Some evict_first);
        c = two_entries (example_instance LRU (Some evict_first));
        c' = state_of (set_cache c ''c'' 3 None NoPriority NoTags 30)
    in opt_customEvict opts = Some evict_first \<and> 0 < with_default 100 (opt_limit opts) \<and>
       AlisaCache opts = Inr (example_instance LRU (Some evict_first)) \<and>
       customEvict c = Some evict_first \<and> strategy c = LRU \<and>
       evict c = c\<lparr> store := [(''b'', 2)], meta := [(''b'', 20)] \<rparr> \<and>
       evictions (evict c) = evictions c \<and>
       store c' = [(''b'', 2), (''c'', 3)] \<and> evictions c' = 0)"
proof -
  define opts where "opts = example_options (Some LRU) (Some evict_first)"
  define c where "c = two_entries (example_instance LRU (Some evict_first))"
  have c: "c = (example_instance LRU (Some evict_first))
                 \<lparr> store := [(''a'', 1), (''b'', 2)], meta := [(''a'', 10), (''b'', 20)],
                   priorityMap := [(''a'', 2), (''b'', 1)],
                   keyTags := [(''a'', []), (''b'', [])] \<rparr>"
    by (simp add: c_def two_entries_eq)
  have o: "opt_customEvict opts = Some evict_first" "0 < with_default 100 (opt_limit opts)"
    by (simp_all add: opts_def example_options_def no_options_def with_default_def)
  have a: "AlisaCache opts = Inr (example_instance LRU (Some evict_first))"
    using AlisaCache_example [of "Some LRU" "Some evict_first"]
    by (simp add: opts_def with_default_def)
  have h: "customEvict c = Some evict_first" "strategy c = LRU"
    by (simp_all add: c example_instance_def empty_cache_def)
  have f: "fst (evict_first (store c, meta c)) = [(''b'', 2)]"
    "snd (evict_first (store c, meta c)) = [(''b'', 20)]"
    by (simp_all add: c example_instance_def empty_cache_def evict_first_def)
  have s: "store (state_of (set_cache c ''c'' 3 None NoPriority NoTags 30)) = [(''b'', 2), (''c'', 3)]"
    "evictions (state_of (set_cache c ''c'' 3 None NoPriority NoTags 30)) = 0"
    by (simp_all add: c example_instance_def empty_cache_def evict_def evict_first_def
        state_of_def set_cache_def set_body_def with_default_def new_Set_def Let_def)
  show ?thesis
    unfolding Let_def opts_def [symmetric] c_def [symmetric]
    using customEvict_delegates [of c evict_first opts] o a h f s by simp
qed

subsection \<open>Reachable states are well formed\<close>

lemma list_all_map_set:
  "list_all P m \<Longrightarrow> P (k, v) \<Longrightarrow> list_all P (map_set m k v)"
  by (induction m) auto

lemma list_all_map_delete: "list_all P m \<Longrightarrow> list_all P (map_delete m k)"
  by (induction m) auto

lemma tag_sets_ok_set: "tag_sets_ok m \<Longrightarrow> distinct s \<Longrightarrow> tag_sets_ok (map_set m k s)"
  by (simp add: tag_sets_ok_def distinct_update list_all_map_set)

lemma tag_sets_ok_delete: "tag_sets_ok m \<Longrightarrow> tag_sets_ok (map_delete m k)"
  by (simp add: tag_sets_ok_def distinct_delete list_all_map_delete)

lemma tag_sets_ok_lookup: "tag_sets_ok m \<Longrightarrow> map_of m k = Some s \<Longrightarrow> distinct s"
  by (auto simp add: tag_sets_ok_def list_all_iff dest: map_of_SomeD)

lemma distinct_set_add: "distinct s \<Longrightarrow> distinct (set_add s x)"
  by (simp add: set_add_def)

lemma distinct_set_delete: "distinct s \<Longrightarrow> distinct (set_delete s x)"
  by (simp add: set_delete_def distinct_removeAll)

lemma distinct_fold_set_add: "distinct ys \<Longrightarrow> distinct (fold (\<lambda>x s. set_add s x) xs ys)"
  by (induction xs arbitrary: ys) (simp_all add: distinct_set_add)

lemma distinct_new_Set: "distinct (new_Set xs)"
  by (simp add: new_Set_def distinct_fold_set_add)

lemma tag_sets_ok_untag: "tag_sets_ok tm \<Longrightarrow> tag_sets_ok (untag key tag tm)"
proof (cases "map_of tm tag")
  case None
  assume "tag_sets_ok tm"
  with None show ?thesis by (simp add: untag_def)
next
  case (Some ks)
  assume ok: "tag_sets_ok tm"
  with Some have "distinct (set_delete ks key)"
    by (auto intro: distinct_set_delete dest: tag_sets_ok_lookup)
  with ok have "tag_sets_ok (map_set tm tag (set_delete ks key))" by (rule tag_sets_ok_set)
  with ok Some show ?thesis by (simp add: untag_def Let_def tag_sets_ok_delete)
qed

lemma tag_sets_ok_fold_untag: "tag_sets_ok tm \<Longrightarrow> tag_sets_ok (fold (untag key) tags tm)"
  by (induction tags arbitrary: tm) (simp_all add: tag_sets_ok_untag)

lemma tag_sets_ok_retag: "tag_sets_ok tm \<Longrightarrow> tag_sets_ok (retag old new tag tm)"
proof (cases "map_of tm tag")
  case None
  assume "tag_sets_ok tm"
  with None show ?thesis by (simp add: retag_def)
next
  case (Some ks)
  assume ok: "tag_sets_ok tm"
  with Some have "distinct ks" by (auto dest: tag_sets_ok_lookup)
  then have "distinct (set_delete (set_add ks new) old)"
    by (intro distinct_set_delete distinct_set_add)
  with ok have "tag_sets_ok (map_set tm tag (set_delete (set_add ks new) old))"
    by (rule tag_sets_ok_set)
  with Some show ?thesis by (simp add: retag_def)
qed

lemma tag_sets_ok_fold_retag: "tag_sets_ok tm \<Longrightarrow> tag_sets_ok (fold (retag old new) tags tm)"
  by (induction tags arbitrary: tm) (simp_all add: tag_sets_ok_retag)

lemma tag_sets_ok_fold_add:
  "tag_sets_ok tm \<Longrightarrow>
   tag_sets_ok (fold (\<lambda>tag tm. map_set tm tag
                  (set_add (case map_of tm tag of None \<Rightarrow> [] | Some ks \<Rightarrow> ks) key)) ts tm)"
proof (induction ts arbitrary: tm)
  case Nil
  then show ?case by simp
next
  case (Cons t ts)
  from Cons.prems have "distinct (case map_of tm t of None \<Rightarrow> [] | Some ks \<Rightarrow> ks)"
    by (auto dest: tag_sets_ok_lookup split: option.splits)
  with Cons.prems have "tag_sets_ok (map_set tm t
      (set_add (case map_of tm t of None \<Rightarrow> [] | Some ks \<Rightarrow> ks) key))"
    by (simp add: tag_sets_ok_set distinct_set_add)
  then show ?case using Cons.IH by simp
qed

lemma well_formed_alt:
  "well_formed c \<longleftrightarrow>
    distinct (map fst (store c)) \<and> distinct (map fst (meta c)) \<and>
    distinct (map fst (ttlMap c)) \<and> distinct (map fst (priorityMap c)) \<and>
    tag_sets_ok (tagMap c) \<and> tag_sets_ok (keyTags c)"
  by (auto simp add: well_formed_def tag_sets_ok_def)

lemma well_formed_delete: "well_formed c \<Longrightarrow> well_formed (snd (delete c key))"
  by (auto simp add: well_formed_alt delete_def Let_def distinct_delete tag_sets_ok_delete
      tag_sets_ok_fold_untag split: option.splits)

lemma well_formed_evict:
  assumes "well_formed c" and "custom_ok c"
  shows "well_formed (evict c)"
proof (cases "customEvict c")
  case None
  then show ?thesis
  proof (cases "store c = []")
    case True
    with None assms show ?thesis by (simp add: evict_def)
  next
    case False
    from assms(1) have "well_formed (snd (delete c (fst (hd (js_sort (compare_entries c) (store c))))))"
      by (rule well_formed_delete)
    with None False show ?thesis by (simp add: evict_ranking well_formed_alt)
  qed
next
  case (Some f)
  with assms have "distinct (map fst (fst (f (store c, meta c))))"
    "distinct (map fst (snd (f (store c, meta c))))"
    by (simp_all add: custom_ok_def well_formed_alt)
  with Some assms(1) show ?thesis
    by (cases "f (store c, meta c)") (simp add: evict_def well_formed_alt)
qed

lemma well_formed_set_body:
  assumes "well_formed c" and "custom_ok c"
  shows "well_formed (set_body c key v ttl_arg p tags now)"
proof -
  have step: "well_formed (set_body c key v ttl_arg p tags now)"
    if c1: "c1 = c \<or> (\<exists>q. c1 = c\<lparr> priorityMap := map_set (priorityMap c) key q \<rparr>)"
      and p: "(case p of
                 NoPriority \<Rightarrow> c\<lparr> priorityMap := map_set (priorityMap c) key 0 \<rparr>
               | Priority priority \<Rightarrow> c\<lparr> priorityMap := map_set (priorityMap c) key priority \<rparr>
               | NotANumber \<Rightarrow> c) = c1" for c1
  proof -
    from assms c1 have w1: "well_formed c1" "custom_ok c1"
      by (auto simp add: well_formed_alt custom_ok_def distinct_update)
    then have w2: "well_formed (evict c1)" by (rule well_formed_evict)
    show ?thesis
      unfolding set_body_def Let_def p
      using w1(1) w2
      by (auto simp add: well_formed_alt distinct_update distinct_delete tag_sets_ok_set
          distinct_new_Set tag_sets_ok_fold_add split: option.splits)
  qed
  show ?thesis
  proof (cases p)
    case NoPriority
    then show ?thesis
      by (intro step [where ?c1.0 = "c\<lparr> priorityMap := map_set (priorityMap c) key 0 \<rparr>"]) auto
  next
    case (Priority q)
    then show ?thesis
      by (intro step [where ?c1.0 = "c\<lparr> priorityMap := map_set (priorityMap c) key q \<rparr>"]) auto
  next
    case NotANumber
    then show ?thesis by (intro step [where ?c1.0 = c]) auto
  qed
qed

lemma customEvict_delete: "customEvict (snd (delete c key)) = customEvict c"
  by (simp add: delete_def Let_def split: option.splits)

lemma custom_ok_cong: "customEvict c' = customEvict c \<Longrightarrow> custom_ok c' = custom_ok c"
  by (simp add: custom_ok_def)

lemma cache_ok_delete: "cache_ok c \<Longrightarrow> cache_ok (snd (delete c key))"
  by (simp add: cache_ok_def well_formed_delete custom_ok_cong [OF customEvict_delete])

lemma customEvict_evict: "customEvict (evict c) = customEvict c"
  by (simp add: evict_def Let_def customEvict_delete split: option.splits prod.splits)

lemma customEvict_set_body: "customEvict (set_body c key v ttl_arg p tags now) = customEvict c"
  by (cases p) (simp_all add: set_body_def Let_def customEvict_evict split: option.splits)

lemma cache_ok_set_body: "cache_ok c \<Longrightarrow> cache_ok (set_body c key v ttl_arg p tags now)"
  by (simp add: cache_ok_def well_formed_set_body custom_ok_cong [OF customEvict_set_body])

lemma cache_ok_set_cache: "cache_ok c \<Longrightarrow> cache_ok (state_of (set_cache c key v ttl_arg p tags now))"
  by (simp add: state_of_def set_cache_def cache_ok_set_body split: tags_arg.splits)

lemma cache_ok_update_meta: "cache_ok c \<Longrightarrow> cache_ok (c\<lparr> meta := map_set (meta c) key now \<rparr>)"
  by (simp add: cache_ok_def well_formed_alt custom_ok_def distinct_update)

lemma cache_ok_counters:
  "cache_ok c \<Longrightarrow> cache_ok (c\<lparr> hits := h \<rparr>)" "cache_ok c \<Longrightarrow> cache_ok (c\<lparr> misses := m \<rparr>)"
  "cache_ok c \<Longrightarrow> cache_ok (c\<lparr> evictions := e \<rparr>)"
  by (simp_all add: cache_ok_def well_formed_alt custom_ok_def)

lemma cache_ok_get: "cache_ok c \<Longrightarrow> cache_ok (snd (get c key now))"
  by (simp add: get_def Let_def cache_ok_delete cache_ok_update_meta cache_ok_counters)

lemma cache_ok_has: "cache_ok c \<Longrightarrow> cache_ok (snd (has c key now))"
  by (simp add: has_def cache_ok_delete cache_ok_update_meta)

lemma cache_ok_expire: "cache_ok c \<Longrightarrow> cache_ok (snd (expire c key now))"
  by (simp add: expire_def cache_ok_def well_formed_alt custom_ok_def distinct_update)

lemma cache_ok_flush: "cache_ok c \<Longrightarrow> cache_ok (flush c)"
  by (simp add: flush_def cache_ok_def well_formed_alt custom_ok_def tag_sets_ok_def)

lemma cache_ok_resetStats: "cache_ok c \<Longrightarrow> cache_ok (resetStats c)"
  by (simp add: resetStats_def cache_ok_def well_formed_alt custom_ok_def)

lemma fold_snd_invariant:
  assumes "\<And>x a. P (snd a) \<Longrightarrow> P (snd (f x a))" and "P (snd a)"
  shows "P (snd (fold f xs a))"
  using assms(2) by (induction xs arbitrary: a) (simp_all add: assms(1))

lemma count_delete_ok:
  assumes "cache_ok (snd a)"
  shows "cache_ok (snd (case a of (n, s) \<Rightarrow> case delete s key of
                          (existed, s') \<Rightarrow> (if existed then n + 1 else n, s')))"
proof -
  obtain n s where a: "a = (n, s)" by (cases a)
  obtain e s' where d: "delete s key = (e, s')" by (cases "delete s key")
  from assms a have "cache_ok (snd (delete s key))" by (simp add: cache_ok_delete)
  with d show ?thesis by (simp add: a)
qed

lemma cache_ok_tagMap_delete:
  "cache_ok s \<Longrightarrow> cache_ok (s\<lparr> tagMap := map_delete (tagMap s) tag \<rparr>)"
  by (simp add: cache_ok_def well_formed_alt custom_ok_def tag_sets_ok_delete)

lemma cache_ok_deleteByTag: "cache_ok c \<Longrightarrow> cache_ok (snd (deleteByTag c tag))"
proof (cases "map_of (tagMap c) tag")
  case None
  assume "cache_ok c"
  with None show ?thesis by (simp add: deleteByTag_def)
next
  case (Some keys)
  let ?r = "fold (\<lambda>key (n, s). case delete s key of
                     (existed, s') \<Rightarrow> (if existed then n + 1 else n, s')) keys (0::int, c)"
  assume "cache_ok c"
  then have "cache_ok (snd ?r)"
    by (intro fold_snd_invariant [where P = cache_ok] count_delete_ok) simp_all
  then have "cache_ok ((snd ?r)\<lparr> tagMap := map_delete (tagMap (snd ?r)) tag \<rparr>)"
    by (rule cache_ok_tagMap_delete)
  then show ?thesis by (cases ?r) (simp add: deleteByTag_def Some)
qed

lemma cache_ok_prune: "cache_ok c \<Longrightarrow> cache_ok (snd (prune c now))"
proof -
  assume ok: "cache_ok c"
  have step: "cache_ok (snd ((case x of (key, expireAt) \<Rightarrow> \<lambda>(removed, s).
            if now > expireAt
            then (case delete s key of (existed, s') \<Rightarrow> (if existed then removed + 1 else removed, s'))
            else (removed, s)) a))" if "cache_ok (snd a)" for x :: "'a \<times> int" and a :: "int \<times> ('a, 'b) cache"
  proof -
    obtain k e where x: "x = (k, e)" by (cases x)
    from that count_delete_ok [OF that, of k] show ?thesis
      by (cases a) (simp add: x)
  qed
  from ok show ?thesis
    unfolding prune_def by (intro fold_snd_invariant [where P = cache_ok] step) simp_all
qed

lemma cache_ok_getByTag: "cache_ok c \<Longrightarrow> cache_ok (snd (getByTag c tag now))"
proof (cases "map_of (tagMap c) tag")
  case None
  assume "cache_ok c"
  with None show ?thesis by (simp add: getByTag_def)
next
  case (Some keys)
  assume ok: "cache_ok c"
  have step: "cache_ok (snd (case a of (vs, s) \<Rightarrow> (case get s k now of
                              (None, s') \<Rightarrow> (vs, s')
                            | (Some v, s') \<Rightarrow> (vs @ [v], s'))))"
    if "cache_ok (snd a)" for k and a :: "'b list \<times> ('a, 'b) cache"
  proof -
    obtain vs s where a: "a = (vs, s)" by (cases a)
    obtain r s' where g: "get s k now = (r, s')" by (cases "get s k now")
    from that a have "cache_ok (snd (get s k now))" by (simp add: cache_ok_get)
    with g show ?thesis by (simp add: a split: option.splits)
  qed
  from ok show ?thesis
    unfolding getByTag_def Some
    by (simp, intro fold_snd_invariant [where P = cache_ok] step) simp_all
qed

lemma cache_ok_rename: "cache_ok c \<Longrightarrow> cache_ok (snd (rename c oldKey newKey now))"
proof -
  assume ok: "cache_ok c"
  have upd: "cache_ok s \<Longrightarrow> cache_ok (s\<lparr> meta := map_set (meta s) k m \<rparr>)"
    "cache_ok s \<Longrightarrow> cache_ok (s\<lparr> ttlMap := map_set (ttlMap s) k m \<rparr>)"
    "cache_ok s \<Longrightarrow> cache_ok (s\<lparr> keyTags := map_set (keyTags s) k (new_Set ts),
                                     tagMap := fold (retag oldKey k) ts (tagMap s) \<rparr>)"
    for s :: "('a, 'b) cache" and k m ts
    by (simp_all add: cache_ok_def well_formed_alt custom_ok_def distinct_update
        tag_sets_ok_set distinct_new_Set tag_sets_ok_fold_retag)
  from ok have "cache_ok (set_body c newKey v None NoPriority [] now)" for v
    by (rule cache_ok_set_body)
  with ok show ?thesis
    by (simp add: rename_def Let_def cache_ok_delete upd split: option.splits)
qed

lemma for_of_invariant:
  assumes "\<And>a s. P s \<Longrightarrow> P (body a s)" and "P s"
  shows "P (snd (for_of body es s))"
  using assms(2)
proof (induction es arbitrary: s)
  case Nil
  then show ?case by simp
next
  case (Cons e es)
  then show ?case by (cases e) (simp_all add: assms(1))
qed

lemma iterate_invariant:
  assumes "\<And>a s. P s \<Longrightarrow> P (body a s)" and "P s"
  shows "P (snd (iterate coll body s))"
  using assms by (cases coll) (simp_all add: iterate_def for_of_invariant [where P = P])

lemma cache_ok_loadSnapshot: "cache_ok c \<Longrightarrow> cache_ok (state_of (loadSnapshot c snap))"
proof (cases snap)
  case NotAnObject
  assume "cache_ok c"
  with NotAnObject show ?thesis by (simp add: loadSnapshot_def state_of_def)
next
  case (Object f)
  assume ok: "cache_ok c"
  have pairs: "distinct (map fst (snd (iterate coll (\<lambda>(k, v) m. map_set m k v) [])))"
    for coll :: "('x \<times> 'y) js_collection"
    by (rule iterate_invariant [where P = "\<lambda>m. distinct (map fst m)"])
      (auto simp add: distinct_update)
  have sets: "tag_sets_ok (snd (iterate coll (\<lambda>(k, s) m. map_set m k (new_Set s)) []))"
    for coll :: "('x \<times> 'y list) js_collection"
  proof (rule iterate_invariant [where P = tag_sets_ok])
    show "tag_sets_ok []" by (simp add: tag_sets_ok_def)
  next
    fix a :: "'x \<times> 'y list" and m :: "('x \<times> 'y list) list"
    assume "tag_sets_ok m"
    then show "tag_sets_ok ((\<lambda>(k, s) m. map_set m k (new_Set s)) a m)"
      by (cases a) (simp add: tag_sets_ok_set distinct_new_Set)
  qed
  obtain ok1 m1 where i1: "iterate (snap_data f) (\<lambda>(k, v) m. map_set m k v) [] = (ok1, m1)"
    by (cases "iterate (snap_data f) (\<lambda>(k, v) m. map_set m k v) []")
  obtain ok2 m2 where i2: "iterate (snap_meta f) (\<lambda>(k, v) m. map_set m k v) [] = (ok2, m2)"
    by (cases "iterate (snap_meta f) (\<lambda>(k, v) m. map_set m k v) []")
  obtain ok3 m3 where i3: "iterate (snap_ttlMap f) (\<lambda>(k, v) m. map_set m k v) [] = (ok3, m3)"
    by (cases "iterate (snap_ttlMap f) (\<lambda>(k, v) m. map_set m k v) []")
  obtain ok4 m4 where
    i4: "iterate (snap_tagMap f) (\<lambda>(k, s) m. map_set m k (new_Set s)) [] = (ok4, m4)"
    by (cases "iterate (snap_tagMap f) (\<lambda>(k, s) m. map_set m k (new_Set s)) []")
  obtain ok5 m5 where
    i5: "iterate (snap_keyTags f) (\<lambda>(k, s) m. map_set m k (new_Set s)) [] = (ok5, m5)"
    by (cases "iterate (snap_keyTags f) (\<lambda>(k, s) m. map_set m k (new_Set s)) []")
  have d: "distinct (map fst m1)" "distinct (map fst m2)" "distinct (map fst m3)"
    "tag_sets_ok m4" "tag_sets_ok m5"
    using pairs [of "snap_data f"] pairs [of "snap_meta f"] pairs [of "snap_ttlMap f"]
      sets [of "snap_tagMap f"] sets [of "snap_keyTags f"]
    by (simp_all add: i1 i2 i3 i4 i5)
  from ok d show ?thesis
    by (simp add: loadSnapshot_def Object state_of_def flush_def Let_def i1 i2 i3 i4 i5
        cache_ok_def well_formed_alt custom_ok_def tag_sets_ok_def)
qed

lemma well_formed_constructed: "AlisaCache opts = Inr c \<Longrightarrow> well_formed c"
  by (auto simp add: AlisaCache_def Let_def well_formed_def split: if_splits)

lemma reachable_well_formed: "reachable c \<Longrightarrow> well_formed c \<and> custom_ok c"
proof -
  assume "reachable c"
  then have "cache_ok c"
  proof (induction rule: reachable.induct)
    case (constructed opts c)
    then show ?case by (simp add: cache_ok_def well_formed_constructed)
  qed (simp_all add: cache_ok_set_cache cache_ok_get cache_ok_getByTag cache_ok_has
      cache_ok_delete cache_ok_deleteByTag cache_ok_rename cache_ok_flush cache_ok_expire
      cache_ok_prune cache_ok_resetStats cache_ok_loadSnapshot)
  then show ?thesis by (simp add: cache_ok_def)
qed

subsection \<open>The tag index after delete\<close>

lemma tag_index_consistent_iff:
  assumes "distinct (map fst (tagMap c))" and "distinct (map fst (keyTags c))"
  shows "tag_index_consistent c \<longleftrightarrow>
    (\<forall>t ks. map_of (tagMap c) t = Some ks \<longrightarrow> ks \<noteq> [] \<and> (\<forall>k \<in> set ks. in_keyTags c k t)) \<and>
    (\<forall>k ts. map_of (keyTags c) k = Some ts \<longrightarrow> (\<forall>t \<in> set ts. in_tagMap c t k))"
  using assms by (auto simp add: tag_index_consistent_def list_all_iff)

lemma map_of_untag:
  "map_of (untag key tag tm) t =
    (if t = tag
     then (case map_of tm tag of
             None \<Rightarrow> None
           | Some ks \<Rightarrow> if removeAll key ks = [] then None else Some (removeAll key ks))
     else map_of tm t)"
  by (simp add: untag_def set_delete_def Let_def update_conv' delete_conv' split: option.splits)

lemma map_of_fold_untag:
  "map_of (fold (untag key) tags tm) t =
    (if t \<in> set tags
     then (case map_of tm t of
             None \<Rightarrow> None
           | Some ks \<Rightarrow> if removeAll key ks = [] then None else Some (removeAll key ks))
     else map_of tm t)"
proof (induction tags arbitrary: tm)
  case Nil
  then show ?case by simp
next
  case (Cons a tags)
  show ?case
    by (simp add: Cons.IH map_of_untag split: option.splits)
qed

text \<open>
  \<^verbatim>\<open>delete\<close> keeps a consistent tag index consistent: it removes the key from the
  key set of each of its tags, and a tag whose key set becomes empty from the tag map.
\<close>

lemma delete_keeps_tag_index:
  assumes wf: "well_formed c" and con: "tag_index_consistent c"
  shows "tag_index_consistent (snd (delete c key))"
proof -
  let ?c' = "snd (delete c key)"
  from wf have d: "distinct (map fst (tagMap c))" "distinct (map fst (keyTags c))"
    by (simp_all add: well_formed_def)
  from wf have "well_formed ?c'" by (rule well_formed_delete)
  then have d': "distinct (map fst (tagMap ?c'))" "distinct (map fst (keyTags ?c'))"
    by (simp_all add: well_formed_def)
  note c = con [unfolded tag_index_consistent_iff [OF d]]
  have kt: "map_of (keyTags ?c') k = (if k = key then None else map_of (keyTags c) k)" for k
    by (simp add: delete_fields delete_conv')
  have tm: "map_of (tagMap ?c') t =
      (case map_of (tagMap c) t of
         None \<Rightarrow> None
       | Some ks \<Rightarrow> if removeAll key ks = [] then None else Some (removeAll key ks))" for t
  proof (cases "map_of (keyTags c) key")
    case None
    then have "tagMap ?c' = tagMap c" by (simp add: delete_def Let_def)
    moreover have "key \<notin> set ks" if "map_of (tagMap c) t = Some ks" for ks
    proof
      assume "key \<in> set ks"
      with c that have "in_keyTags c key t" by blast
      with None show False by (simp add: in_keyTags_def)
    qed
    moreover have "ks \<noteq> []" if "map_of (tagMap c) t = Some ks" for ks
      using c that by blast
    ultimately show ?thesis by (auto split: option.splits)
  next
    case (Some tags)
    then have eq: "tagMap ?c' = fold (untag key) tags (tagMap c)" by (simp add: delete_def Let_def)
    show ?thesis
    proof (cases "t \<in> set tags")
      case True
      then show ?thesis by (simp add: eq map_of_fold_untag)
    next
      case False
      have "key \<notin> set ks" if "map_of (tagMap c) t = Some ks" for ks
      proof
        assume "key \<in> set ks"
        with c that have "in_keyTags c key t" by blast
        with Some False show False by (simp add: in_keyTags_def)
      qed
      moreover have "ks \<noteq> []" if "map_of (tagMap c) t = Some ks" for ks
        using c that by blast
      ultimately show ?thesis using False by (auto simp add: eq map_of_fold_untag split: option.splits)
    qed
  qed
  have ikt: "in_keyTags ?c' k t \<longleftrightarrow> k \<noteq> key \<and> in_keyTags c k t" for k t
    by (simp add: in_keyTags_def kt)
  have itm: "in_tagMap ?c' t k \<longleftrightarrow> k \<noteq> key \<and> in_tagMap c t k" for k t
  proof (cases "map_of (tagMap c) t")
    case None
    then show ?thesis by (simp add: in_tagMap_def tm)
  next
    case (Some ks)
    have s: "set (removeAll key ks) = set ks - {key}" by simp
    show ?thesis
    proof (cases "removeAll key ks = []")
      case True
      with s have "set ks \<subseteq> {key}" by auto
      with True Some show ?thesis by (auto simp add: in_tagMap_def tm)
    next
      case False
      with Some show ?thesis by (auto simp add: in_tagMap_def tm)
    qed
  qed
  show ?thesis
    unfolding tag_index_consistent_iff [OF d']
  proof (intro conjI allI impI ballI)
    fix t ks assume a: "map_of (tagMap ?c') t = Some ks"
    then obtain ks0 where ks0: "map_of (tagMap c) t = Some ks0" "ks = removeAll key ks0" "ks \<noteq> []"
      by (auto simp add: tm split: option.splits if_splits)
    then show "ks \<noteq> []" by simp
    fix k assume "k \<in> set ks"
    with ks0 have "k \<noteq> key" "k \<in> set ks0" by auto
    with c ks0(1) show "in_keyTags ?c' k t" by (auto simp add: ikt)
  next
    fix k ts t assume a: "map_of (keyTags ?c') k = Some ts" "t \<in> set ts"
    then have "k \<noteq> key" "map_of (keyTags c) k = Some ts" by (auto simp add: kt split: if_splits)
    with c a(2) show "in_tagMap ?c' t k" by (auto simp add: itm)
  qed
qed

subsection \<open>Snapshots\<close>

lemma for_of_entries: "for_of body (map Entry xs) s = (True, fold body xs s)"
  by (induction xs arbitrary: s) simp_all

lemma iterate_entries: "iterate (Array (map Entry xs)) body s = (True, fold body xs s)"
  by (simp add: iterate_def for_of_entries)

lemma fold_map_set_distinct:
  "distinct (map fst (ys @ xs)) \<Longrightarrow> fold (\<lambda>(k, v) m. map_set m k v) xs ys = ys @ xs"
proof (induction xs arbitrary: ys)
  case Nil
  then show ?case by simp
next
  case (Cons x xs)
  obtain k v where x: "x = (k, v)" by (cases x)
  from Cons.prems have "k \<notin> fst ` set ys" by (auto simp add: x)
  then have "map_set ys k v = ys @ [(k, v)]" by (rule map_set_fresh)
  moreover from Cons.prems have "distinct (map fst ((ys @ [(k, v)]) @ xs))" by (simp add: x)
  ultimately show ?case using Cons.IH [of "ys @ [(k, v)]"] by (simp add: x)
qed

lemma fold_set_add_distinct: "distinct (ys @ xs) \<Longrightarrow> fold (\<lambda>x s. set_add s x) xs ys = ys @ xs"
proof (induction xs arbitrary: ys)
  case Nil
  then show ?case by simp
next
  case (Cons x xs)
  from Cons.prems have "set_add ys x = ys @ [x]" by (simp add: set_add_def)
  moreover from Cons.prems have "distinct ((ys @ [x]) @ xs)" by auto
  ultimately show ?case using Cons.IH [of "ys @ [x]"] by simp
qed

lemma new_Set_distinct: "distinct xs \<Longrightarrow> new_Set xs = xs"
  using fold_set_add_distinct [of "[]" xs] by (simp add: new_Set_def)

lemma fold_map_set_sets_distinct:
  "distinct (map fst (ys @ xs)) \<Longrightarrow> list_all (\<lambda>(k, s). distinct s) xs \<Longrightarrow>
   fold (\<lambda>(k, s) m. map_set m k (new_Set s)) xs ys = ys @ xs"
proof (induction xs arbitrary: ys)
  case Nil
  then show ?case by simp
next
  case (Cons x xs)
  obtain k s where x: "x = (k, s)" by (cases x)
  from Cons.prems have "k \<notin> fst ` set ys" by (auto simp add: x)
  then have "map_set ys k (new_Set s) = ys @ [(k, new_Set s)]" by (rule map_set_fresh)
  moreover from Cons.prems have "new_Set s = s" by (simp add: x new_Set_distinct)
  moreover from Cons.prems have "distinct (map fst ((ys @ [(k, s)]) @ xs))" by (simp add: x)
  moreover from Cons.prems have "list_all (\<lambda>(k, s). distinct s) xs" by simp
  ultimately show ?case using Cons.IH [of "ys @ [(k, s)]"] by (simp add: x)
qed

text \<open>Loading the snapshot of a state into any instance.\<close>

lemma loadSnapshot_of_snapshot:
  assumes "well_formed c"
  shows "loadSnapshot c0 (snapshot c) =
    Inr (c0\<lparr> hits := hits c, misses := misses c, evictions := evictions c,
             store := store c, meta := meta c, ttlMap := ttlMap c, priorityMap := [],
             tagMap := tagMap c, keyTags := keyTags c \<rparr>)"
proof -
  from assms have
    d: "fold (\<lambda>(k, v) m. map_set m k v) (store c) [] = store c"
       "fold (\<lambda>(k, v) m. map_set m k v) (meta c) [] = meta c"
       "fold (\<lambda>(k, v) m. map_set m k v) (ttlMap c) [] = ttlMap c"
       "fold (\<lambda>(k, s) m. map_set m k (new_Set s)) (tagMap c) [] = tagMap c"
       "fold (\<lambda>(k, s) m. map_set m k (new_Set s)) (keyTags c) [] = keyTags c"
    using fold_map_set_distinct [of "[]" "store c"] fold_map_set_distinct [of "[]" "meta c"]
      fold_map_set_distinct [of "[]" "ttlMap c"]
      fold_map_set_sets_distinct [of "[]" "tagMap c"]
      fold_map_set_sets_distinct [of "[]" "keyTags c"]
    by (simp_all add: well_formed_def)
  show ?thesis
    by (simp add: loadSnapshot_def snapshot_def iterate_entries flush_def d with_default_def Let_def)
qed

lemma sample_eq:
  "sample = empty_cache\<lparr> hits := 1, misses := 1, store := [(''x'', 1), (''y'', 2)],
                         meta := [(''x'', 100), (''y'', 110)], ttlMap := [(''x'', 150)],
                         priorityMap := [(''x'', 5), (''y'', 0)],
                         tagMap := [(''t'', [''x'', ''y'']), (''u'', [''x''])],
                         keyTags := [(''x'', [''t'', ''u'']), (''y'', [''t''])] \<rparr>"
proof -
  define c1 where
    "c1 = state_of (set_cache empty_cache ''x'' 1 (Some 50) (Priority 5) (Tags [''t'', ''u'']) 100)"
  define c2 where "c2 = state_of (set_cache c1 ''y'' 2 None NoPriority (Tags [''t'']) 110)"
  define c3 where "c3 = snd (get c2 ''x'' 120)"
  have c1: "c1 = empty_cache\<lparr> store := [(''x'', 1)], meta := [(''x'', 100)],
                              ttlMap := [(''x'', 150)], priorityMap := [(''x'', 5)],
                              tagMap := [(''t'', [''x'']), (''u'', [''x''])],
                              keyTags := [(''x'', [''t'', ''u''])] \<rparr>"
    by (simp add: c1_def state_of_def set_cache_def set_body_def empty_cache_def
        with_default_def new_Set_def set_add_def Let_def)
  have c2: "c2 = empty_cache\<lparr> store := [(''x'', 1), (''y'', 2)],
                              meta := [(''x'', 100), (''y'', 110)],
                              ttlMap := [(''x'', 150)], priorityMap := [(''x'', 5), (''y'', 0)],
                              tagMap := [(''t'', [''x'', ''y'']), (''u'', [''x''])],
                              keyTags := [(''x'', [''t'', ''u'']), (''y'', [''t''])] \<rparr>"
    unfolding c2_def c1
    by (simp add: state_of_def set_cache_def set_body_def empty_cache_def
        with_default_def new_Set_def set_add_def Let_def)
  have c3: "c3 = c2\<lparr> hits := 1 \<rparr>"
    unfolding c3_def c2 by (simp add: get_def expired_def empty_cache_def Let_def)
  have "snd (get c3 ''z'' 130) = c3\<lparr> misses := 1 \<rparr>"
    unfolding c3 c2 by (simp add: get_def empty_cache_def)
  then show ?thesis
    unfolding sample_def Let_def c1_def [symmetric] c2_def [symmetric] c3_def [symmetric]
    by (simp add: c3 c2 empty_cache_def)
qed

lemma well_formed_sample: "well_formed sample"
  unfolding sample_eq by (simp add: well_formed_def empty_cache_def)

lemma reachable_sample: "reachable sample"
proof -
  have "custom_ok empty_cache" by (simp add: custom_ok_def empty_cache_def)
  with AlisaCache_no_options have "reachable empty_cache" by (rule reachable.constructed)
  then show ?thesis
    unfolding sample_def Let_def
    by (intro reachable.after_get reachable.after_set)
qed

text \<open>
  C7. The snapshot of a reachable cache state, loaded into an instance \<open>c0\<close> (a fresh
  instance of the same configuration, or any other), returns without error and leaves
  \<open>c0\<close> with the store of the original (the same keys and values in the same order), its
  recency and deadline maps, its tag map and key-tags map (the same tags and keys in the
  same order) and its three counters. The configuration is the one of \<open>c0\<close>.
\<close>

theorem snapshot_roundtrip:
  assumes "reachable c"
  shows "\<exists>c'. loadSnapshot c0 (snapshot c) = Inr c' \<and>
           store c' = store c \<and> map fst (store c') = map fst (store c) \<and>
           meta c' = meta c \<and> ttlMap c' = ttlMap c \<and>
           tagMap c' = tagMap c \<and> keyTags c' = keyTags c \<and>
           hits c' = hits c \<and> misses c' = misses c \<and> evictions c' = evictions c \<and>
           limit c' = limit c0 \<and> ttl c' = ttl c0 \<and> strategy c' = strategy c0 \<and>
           overWrite c' = overWrite c0 \<and> customEvict c' = customEvict c0 \<and>
           updateOnGet c' = updateOnGet c0 \<and> updateOnHas c' = updateOnHas c0 \<and>
           cloneOnGet c' = cloneOnGet c0"
proof -
  from assms have "well_formed c" by (simp add: reachable_well_formed)
  then show ?thesis using loadSnapshot_of_snapshot [of c c0] by simp
qed

text \<open>
  The sample state is reachable from \<^verbatim>\<open>new AlisaCache()\<close> by two writes and two
  reads; its snapshot, loaded into a new instance, gives back its store, its tag index
  and its counters.
\<close>

theorem snapshot_roundtrip_witness:
  "reachable sample \<and>
   (\<exists>c'. loadSnapshot empty_cache (snapshot sample) = Inr c' \<and>
         store c' = [(''x'', 1), (''y'', 2)] \<and>
         tagMap c' = [(''t'', [''x'', ''y'']), (''u'', [''x''])] \<and>
         keyTags c' = [(''x'', [''t'', ''u'']), (''y'', [''t''])] \<and>
         hits c' = 1 \<and> misses c' = 1 \<and> evictions c' = 0)"
proof -
  have s: "store sample = [(''x'', 1), (''y'', 2)]"
    "tagMap sample = [(''t'', [''x'', ''y'']), (''u'', [''x''])]"
    "keyTags sample = [(''x'', [''t'', ''u'']), (''y'', [''t''])]"
    "hits sample = 1" "misses sample = 1" "evictions sample = 0"
    unfolding sample_eq by (simp_all add: empty_cache_def)
  from snapshot_roundtrip [OF reachable_sample, of empty_cache] reachable_sample
  show ?thesis unfolding s by auto
qed

lemma loadSnapshot_priorityMap:
  assumes "loadSnapshot c0 snap = Inr c'"
  shows "priorityMap c' = []"
  using assms
  by (auto simp add: loadSnapshot_def flush_def Let_def
      split: js_value.splits prod.splits if_splits)

lemma clone_priorityMap:
  assumes "clone jk jv c = Inr c'"
  shows "priorityMap c' = []"
  using assms
  by (auto simp add: clone_def Let_def loadSnapshot_priorityMap split: sum.splits prod.splits)

lemma JSON_copy_snapshot:
  "JSON_copy (\<lambda>k. k) (\<lambda>v. v) (snapshot c) = snapshot c"
  by (simp add: JSON_copy_def snapshot_def js_collection.map_ident js_entry.map_ident
      js_collection.map_comp comp_def list.map_ident)

text \<open>
  C10. The snapshot of a state does not depend on the priorities of the state (the
  structure has no field for them). After a \<^verbatim>\<open>loadSnapshot\<close> that returns, and after
  a \<^verbatim>\<open>clone\<close> that returns, the priority map is empty, so every key has the priority
  0 that \<^verbatim>\<open>evict\<close> reads for a key without entry, and the comparator of \<^verbatim>\<open>evict\<close>
  sees every two entries as of equal priority.
\<close>

theorem snapshot_excludes_priorities:
  "snapshot (c\<lparr> priorityMap := pm \<rparr>) = snapshot c \<and>
   (loadSnapshot c0 snap = Inr c1 \<longrightarrow>
      priorityMap c1 = [] \<and> prio c1 k = 0 \<and> prio c1 k = prio c1 k') \<and>
   (clone jk jv c = Inr c2 \<longrightarrow>
      priorityMap c2 = [] \<and> prio c2 k = 0 \<and> prio c2 k = prio c2 k')"
proof (intro conjI impI)
  show "snapshot (c\<lparr> priorityMap := pm \<rparr>) = snapshot c" by (simp add: snapshot_def)
next
  assume "loadSnapshot c0 snap = Inr c1"
  then have "priorityMap c1 = []" by (rule loadSnapshot_priorityMap)
  then show "priorityMap c1 = []" "prio c1 k = 0" "prio c1 k = prio c1 k'"
    by (simp_all add: prio_def)
next
  assume "clone jk jv c = Inr c2"
  then have "priorityMap c2 = []" by (rule clone_priorityMap)
  then show "priorityMap c2 = []" "prio c2 k = 0" "prio c2 k = prio c2 k'"
    by (simp_all add: prio_def)
qed

text \<open>
  The key \<open>x\<close> has priority 5 in the sample state; in the state loaded from its
  snapshot, and in its clone, \<open>x\<close> and \<open>y\<close> have priority 0.
\<close>

theorem snapshot_excludes_priorities_witness:
  "prio sample ''x'' = 5 \<and>
   snapshot (sample\<lparr> priorityMap := [] \<rparr>) = snapshot sample \<and>
   (\<exists>c1. loadSnapshot empty_cache (snapshot sample) = Inr c1 \<and>
         store c1 = store sample \<and> priorityMap c1 = [] \<and>
         prio c1 ''x'' = 0 \<and> prio c1 ''x'' = prio c1 ''y'') \<and>
   (\<exists>c2. clone (\<lambda>k. k) (\<lambda>v. v) sample = Inr c2 \<and>
         store c2 = store sample \<and> priorityMap c2 = [] \<and>
         prio c2 ''x'' = 0 \<and> prio c2 ''x'' = prio c2 ''y'')"
proof -
  have p: "prio sample ''x'' = 5"
    unfolding sample_eq by (simp add: prio_def empty_cache_def)
  obtain c1 where c1: "loadSnapshot empty_cache (snapshot sample) = Inr c1"
    "store c1 = store sample"
    using loadSnapshot_of_snapshot [OF well_formed_sample, of empty_cache] by simp
  have d: "deepClone sample = Inr empty_cache"
    unfolding sample_eq
    by (simp add: deepClone_def AlisaCache_def empty_cache_def with_default_def)
  have "clone (\<lambda>k. k) (\<lambda>v. v) sample = Inr c1"
    by (simp add: clone_def Let_def d JSON_copy_snapshot c1)
  with c1 p
    snapshot_excludes_priorities [where c = sample and pm = "[]" and ?c0.0 = empty_cache
      and snap = "snapshot sample" and ?c1.0 = c1 and k = "''x''" and k' = "''y''"
      and jk = "\<lambda>k. k" and jv = "\<lambda>v. v" and ?c2.0 = c1]
  show ?thesis by auto
qed

end
